theory Spec2Isabelle
  imports Main "HOL-Library.Word"
begin

section \<open>C strings, integers and the formatted-output facility\<close>

text \<open>
  A C string is modelled by the list of its bytes before the terminator; a pointer to a
  string that may be null is a \<open>string option\<close>. A destination buffer is the list of the
  bytes of the array it points to, so \<open>buffer + offset\<close> is \<open>drop offset buffer\<close>.
  Results are wrapped in \<open>option\<close>: \<open>None\<close> means that the execution leaves the part of C
  that the model covers (undefined behaviour, or a conversion that is not modelled).
\<close>

type_synonym buffer = string

definition NUL :: char where
  "NUL = CHR 0x00"

definition INT_MAX :: int where
  "INT_MAX = 2147483647"

text \<open>The value read from a field: an \<open>int\<close>, or a \<open>const char*\<close> (\<open>None\<close> is the null pointer).\<close>

datatype cval = CInt "32 word" | CStr "string option"

definition digit :: "nat \<Rightarrow> char" where
  "digit n = ''0123456789'' ! (n mod 10)"

function dec_nat :: "nat \<Rightarrow> string" where
  "dec_nat n = (if n < 10 then [digit n] else dec_nat (n div 10) @ [digit n])"
  by pat_completeness auto
termination
  by (relation "measure id") auto

declare dec_nat.simps [simp del]

definition dec_int :: "int \<Rightarrow> string" where
  "dec_int i = (if i < 0 then CHR ''-'' # dec_nat (nat (- i)) else dec_nat (nat i))"

text \<open>
  The text that a \<open>printf\<close>-family call produces for a format string and one variadic
  argument (\<open>Some v\<close> while it has not been consumed). Covered: literal bytes, \<open>%%\<close>,
  \<open>%d\<close> with an \<open>int\<close> and \<open>%s\<close> with a non-null string. A conversion without a matching
  argument, a lone \<open>%\<close> and any other conversion give \<open>None\<close>.
\<close>

fun c_format :: "string \<Rightarrow> cval option \<Rightarrow> string option" where
  "c_format [] a = Some []"
| "c_format [c] a = (if c = CHR ''%'' then None else Some [c])"
| "c_format (c # d # rest) a =
     (if c \<noteq> CHR ''%'' then map_option ((#) c) (c_format (d # rest) a)
      else if d = CHR ''%'' then map_option ((#) CHR ''%'') (c_format rest a)
      else if d = CHR ''d'' then
        (case a of
           Some (CInt i) \<Rightarrow> map_option ((@) (dec_int (sint i))) (c_format rest None)
         | _ \<Rightarrow> None)
      else if d = CHR ''s'' then
        (case a of
           Some (CStr (Some s)) \<Rightarrow> map_option ((@) s) (c_format rest None)
         | _ \<Rightarrow> None)
      else None)"

text \<open>
  \<open>snprintf(dst, n, ...)\<close> producing the text \<open>out\<close>: with \<open>n = 0\<close> nothing is stored;
  otherwise at most \<open>n - 1\<close> bytes of the text and then the terminator. The call returns the
  length of the whole text, or a negative value when that length does not fit an \<open>int\<close>.
\<close>

definition snprintf_store :: "buffer \<Rightarrow> nat \<Rightarrow> string \<Rightarrow> buffer" where
  "snprintf_store dst n out =
     (if n = 0 then dst
      else let k = min (length out) (n - 1) in take k out @ NUL # drop (Suc k) dst)"

definition snprintf_ret :: "string \<Rightarrow> int" where
  "snprintf_ret out = (if int (length out) > INT_MAX then - 1 else int (length out))"

section \<open>The generated stringifier (err\_gen.h)\<close>

text \<open>
  One entry of a field list \<open>X_PARAM(ctype, cname, ckind, struct_type_token,
  primitive_format_spec)\<close> together with what is read through \<open>s->cname\<close>: a primitive field
  carries its name, its format specifier and its value, a nested field its name and the
  field list of the nested record.
\<close>

datatype field = PRIMITIVE string string cval | STRUCT string "field list"

text \<open>The 256-byte \<open>field_full_name\<close> buffer, filled by \<open>snprintf\<close> (which truncates).\<close>

definition field_full_name :: "string option \<Rightarrow> string \<Rightarrow> string" where
  "field_full_name name_prefix cname =
     (case name_prefix of
        None \<Rightarrow> take 255 cname
      | Some p \<Rightarrow> if p \<noteq> [] then take 255 (p @ ''.'' @ cname) else take 255 cname)"

text \<open>The 512-byte \<open>format_string_buffer\<close>, filled with \<open>"%s=%s"\<close>.\<close>

definition format_string_buffer :: "string \<Rightarrow> string \<Rightarrow> string" where
  "format_string_buffer full_name fmt_spec = take 511 (full_name @ ''='' @ fmt_spec)"

text \<open>The three places that force a terminator share one shape.\<close>

definition terminate :: "nat \<Rightarrow> buffer \<Rightarrow> nat \<Rightarrow> buffer" where
  "terminate buffer_size buffer offset =
     (if buffer_size > 0 \<and> offset < buffer_size then buffer[offset := NUL]
      else if buffer_size > 0 then buffer[buffer_size - 1 := NUL]
      else buffer)"

datatype flow = Return "(int \<times> buffer) option" | Next buffer nat

text \<open>The separator before every field but the first.\<close>

definition separator :: "nat \<Rightarrow> buffer \<Rightarrow> nat \<Rightarrow> bool \<Rightarrow> flow" where
  "separator buffer_size buffer offset first_field_in_struct =
     (if \<not> first_field_in_struct then
        (if offset < buffer_size then
           (if int offset + 1 > INT_MAX then Return None
            else Next (buffer[offset := CHR '' '']) (offset + 1))
         else Return (Some (- 1,
                if buffer_size > 0 then buffer[buffer_size - 1 := NUL] else buffer)))
      else Next buffer offset)"

definition remaining :: "nat \<Rightarrow> nat \<Rightarrow> nat" where
  "remaining buffer_size offset = (if buffer_size > offset then buffer_size - offset else 0)"

text \<open>
  The body that \<open>FIELDS_XMACRO_LIST(_XMACRO_FIELD_TO_STRING_LOGIC)\<close> expands to, followed
  by the final termination and \<open>return offset\<close>. The arguments after the field list are the
  local state: buffer contents, \<open>offset\<close> and \<open>first_field_in_struct\<close>.
\<close>

fun field_logic ::
  "nat \<Rightarrow> string option \<Rightarrow> field list \<Rightarrow> buffer \<Rightarrow> nat \<Rightarrow> bool \<Rightarrow> (int \<times> buffer) option"
where
  "field_logic buffer_size name_prefix [] buffer offset first =
     Some (int offset, terminate buffer_size buffer offset)"
| "field_logic buffer_size name_prefix (PRIMITIVE cname fmt_spec v # fs) buffer offset first =
     (case separator buffer_size buffer offset first of
        Return r \<Rightarrow> r
      | Next buffer1 offset1 \<Rightarrow>
          (case c_format (format_string_buffer (field_full_name name_prefix cname) fmt_spec)
                  (Some v) of
             None \<Rightarrow> None
           | Some out \<Rightarrow>
               (let buffer2 = take offset1 buffer1 @
                      snprintf_store (drop offset1 buffer1) (remaining buffer_size offset1) out;
                    res = snprintf_ret out
                in if res < 0 \<or> nat res \<ge> remaining buffer_size offset1
                   then Some (- 1, terminate buffer_size buffer2 offset1)
                   else if int offset1 + res > INT_MAX then None
                   else field_logic buffer_size name_prefix fs buffer2 (offset1 + nat res) False)))"
| "field_logic buffer_size name_prefix (STRUCT cname sub # fs) buffer offset first =
     (case separator buffer_size buffer offset first of
        Return r \<Rightarrow> r
      | Next buffer1 offset1 \<Rightarrow>
          (case field_logic (remaining buffer_size offset1)
                  (Some (field_full_name name_prefix cname)) sub (drop offset1 buffer1) 0 True of
             None \<Rightarrow> None
           | Some (res, nested) \<Rightarrow>
               (let buffer2 = take offset1 buffer1 @ nested
                in if res < 0 then Some (- 1, terminate buffer_size buffer2 offset1)
                   else if int offset1 + res > INT_MAX then None
                   else field_logic buffer_size name_prefix fs buffer2 (offset1 + nat res) False)))"

text \<open>
  \<open>STRUCT_NAME##_to_str(buffer, buffer_size, s, name_prefix)\<close>; \<open>s = None\<close> is the null
  record pointer. With a null record and \<open>buffer_size = 0\<close> the generated body goes on to
  read the fields through the null pointer.
\<close>

definition to_str ::
  "buffer \<Rightarrow> nat \<Rightarrow> field list option \<Rightarrow> string option \<Rightarrow> (int \<times> buffer) option"
where
  "to_str buffer buffer_size s name_prefix =
     (case s of
        None \<Rightarrow> if buffer_size > 0 then Some (0, buffer[0 := NUL]) else None
      | Some fields \<Rightarrow> field_logic buffer_size name_prefix fields buffer 0 True)"

section \<open>What a rendering consists of\<close>

text \<open>
  The text of a record, computed without any buffer: the text of every field, a nested
  record contributing its own fields joined by single spaces, and the whole joined by single
  spaces again. \<open>None\<close> when formatting a field is not covered by the model.
\<close>

fun join_sp :: "string list \<Rightarrow> string" where
  "join_sp [] = []"
| "join_sp [t] = t"
| "join_sp (t # u # ts) = t @ CHR '' '' # join_sp (u # ts)"

fun field_text :: "string option \<Rightarrow> field \<Rightarrow> string option"
and fields_text :: "string option \<Rightarrow> field list \<Rightarrow> string list option" where
  "field_text name_prefix (PRIMITIVE cname fmt_spec v) =
     c_format (format_string_buffer (field_full_name name_prefix cname) fmt_spec) (Some v)"
| "field_text name_prefix (STRUCT cname sub) =
     map_option join_sp (fields_text (Some (field_full_name name_prefix cname)) sub)"
| "fields_text name_prefix [] = Some []"
| "fields_text name_prefix (f # fs) =
     (case field_text name_prefix f of
        None \<Rightarrow> None
      | Some t \<Rightarrow> map_option ((#) t) (fields_text name_prefix fs))"

definition rendered :: "string option \<Rightarrow> field list \<Rightarrow> string option" where
  "rendered name_prefix fs = map_option join_sp (fields_text name_prefix fs)"

text \<open>Writing the bytes \<open>w\<close> into a buffer from position \<open>off\<close> on.\<close>

definition store :: "buffer \<Rightarrow> nat \<Rightarrow> string \<Rightarrow> buffer" where
  "store b off w = take off b @ w @ drop (off + length w) b"

text \<open>What the fields still to come add behind the current offset.\<close>

definition pending :: "bool \<Rightarrow> string list \<Rightarrow> string" where
  "pending first ts = (if ts = [] then [] else if first then join_sp ts else CHR '' '' # join_sp ts)"


section \<open>The output grammar of the specification\<close>

text \<open>
  Written from the words of the specification, to compare the generated code with: the
  output is a sequence of \<open>fieldpath=value\<close> tokens separated by single spaces, the value
  being the field rendered with its formatting hint, and a nested record contributing its
  own output with the extended path. \<open>rel_path\<close> is the path of a field below the record
  that is rendered, and \<open>key\<close> turns that path into the key that is printed:
  \<open>with_keys (\<lambda>k. k)\<close> is the rendering with the empty prefix, and
  \<open>with_keys (\<lambda>k. P @ ''.'' @ k)\<close> the same rendering with every key prefixed by
  \<open>P\<close> and a dot.
\<close>

definition rel_path :: "string \<Rightarrow> string \<Rightarrow> string" where
  "rel_path rel cname = (if rel = [] then cname else rel @ ''.'' @ cname)"

fun keyed_field :: "(string \<Rightarrow> string) \<Rightarrow> string \<Rightarrow> field \<Rightarrow> string option"
and keyed_fields :: "(string \<Rightarrow> string) \<Rightarrow> string \<Rightarrow> field list \<Rightarrow> string list option" where
  "keyed_field key rel (PRIMITIVE cname fmt_spec v) =
     map_option (\<lambda>val. key (rel_path rel cname) @ ''='' @ val) (c_format fmt_spec (Some v))"
| "keyed_field key rel (STRUCT cname sub) =
     map_option join_sp (keyed_fields key (rel_path rel cname) sub)"
| "keyed_fields key rel [] = Some []"
| "keyed_fields key rel (f # fs) =
     (case keyed_field key rel f of
        None \<Rightarrow> None
      | Some t \<Rightarrow> map_option ((#) t) (keyed_fields key rel fs))"

definition with_keys :: "(string \<Rightarrow> string) \<Rightarrow> field list \<Rightarrow> string option" where
  "with_keys key fs = map_option join_sp (keyed_fields key [] fs)"

text \<open>
  The inputs on which the two fixed-size name buffers of the generated code do not truncate
  and on which a field name is a C identifier as far as formatting goes (not empty, no
  \<open>%\<close>): \<open>n\<close> is the number of bytes that the prefix and its dot put in front of every
  path.
\<close>

fun field_fits :: "nat \<Rightarrow> string \<Rightarrow> field \<Rightarrow> bool"
and fields_fit :: "nat \<Rightarrow> string \<Rightarrow> field list \<Rightarrow> bool" where
  "field_fits n rel (PRIMITIVE cname fmt_spec v) =
     (cname \<noteq> [] \<and> CHR ''%'' \<notin> set cname \<and> n + length (rel_path rel cname) \<le> 255 \<and>
      n + length (rel_path rel cname) + 1 + length fmt_spec \<le> 511)"
| "field_fits n rel (STRUCT cname sub) =
     (cname \<noteq> [] \<and> CHR ''%'' \<notin> set cname \<and> n + length (rel_path rel cname) \<le> 255 \<and>
      fields_fit n (rel_path rel cname) sub)"
| "fields_fit n rel [] = True"
| "fields_fit n rel (f # fs) = (field_fits n rel f \<and> fields_fit n rel fs)"

text \<open>The key under a prefix that may be empty, and the prefix passed down to a nested record.\<close>

definition dotted :: "string \<Rightarrow> string \<Rightarrow> string" where
  "dotted P k = (if P = [] then k else P @ ''.'' @ k)"

definition under :: "string \<Rightarrow> string \<Rightarrow> string" where
  "under P rel = (if rel = [] then P else dotted P rel)"

section \<open>Two runs on buffers with different contents\<close>

text \<open>
  \<open>agree b1 b2 c1 c2\<close>: the buffers \<open>c1\<close> and \<open>c2\<close> come from \<open>b1\<close> and \<open>b2\<close> by the
  same stores, that is, at every index they hold the same byte or each still holds the
  byte it held before. \<open>same_outcome\<close> lifts this to the results of two calls: both
  undefined, or both returning the same integer with buffers that agree.
\<close>

definition agree :: "buffer \<Rightarrow> buffer \<Rightarrow> buffer \<Rightarrow> buffer \<Rightarrow> bool" where
  "agree b1 b2 c1 c2 =
     (length c1 = length b1 \<and> length c2 = length b2 \<and>
      (\<forall>i<length b1. c1 ! i = c2 ! i \<or> (c1 ! i = b1 ! i \<and> c2 ! i = b2 ! i)))"

definition same_outcome ::
  "buffer \<Rightarrow> buffer \<Rightarrow> (int \<times> buffer) option \<Rightarrow> (int \<times> buffer) option \<Rightarrow> bool" where
  "same_outcome b1 b2 o1 o2 =
     (case o1 of
        None \<Rightarrow> o2 = None
      | Some (r1, c1) \<Rightarrow> (\<exists>c2. o2 = Some (r1, c2) \<and> agree b1 b2 c1 c2))"

section \<open>The records of the test suite\<close>

text \<open>\<open>POINT_FIELDS\<close> and \<open>LINE_FIELDS\<close> of test\_slog.c, and the value \<open>l1\<close> built there.\<close>

definition Point :: "int \<Rightarrow> int \<Rightarrow> field list" where
  "Point x y = [PRIMITIVE ''x'' ''%d'' (CInt (word_of_int x)), PRIMITIVE ''y'' ''%d'' (CInt (word_of_int y))]"

definition Line :: "field list \<Rightarrow> field list \<Rightarrow> string option \<Rightarrow> field list" where
  "Line start end label =
     [STRUCT ''start'' start, STRUCT ''end'' end, PRIMITIVE ''label'' ''%s'' (CStr label)]"

definition l1 :: "field list" where
  "l1 = Line (Point 10 20) (Point 30 40) (Some ''MainLine'')"

text \<open>A record with one scalar field followed by a nested record that has no fields.\<close>

definition Tagged :: "int \<Rightarrow> field list" where
  "Tagged x = [PRIMITIVE ''x'' ''%d'' (CInt (word_of_int x)), STRUCT ''e'' []]"

section \<open>The default formatter (slog.c)\<close>

text \<open>
  \<open>KeyValuePair\<close> has two \<open>char*\<close> members, each of which may be null. The heap
  buffer that \<open>format_logfmt\<close> fills is modelled by the string it holds and by its
  capacity: \<open>strcat\<close> (and \<open>strcpy\<close> into the empty buffer) is defined when the result
  and its terminator fit the capacity and is \<open>None\<close>, a write past the allocation,
  otherwise. \<open>size_t\<close> arithmetic is taken without wrap-around.
\<close>

record KeyValuePair =
  key :: "string option"
  "value" :: "string option"

definition strcat :: "nat \<Rightarrow> string \<Rightarrow> string \<Rightarrow> string option" where
  "strcat cap dest src = (if length dest + length src < cap then Some (dest @ src) else None)"

text \<open>The first loop: what every pair adds to \<open>required_size\<close>.\<close>

fun pairs_size :: "KeyValuePair list \<Rightarrow> nat" where
  "pairs_size [] = 0"
| "pairs_size (p # ps) =
     (case (key p, value p) of
        (Some k, Some v) \<Rightarrow> length k + length v + 4
      | _ \<Rightarrow> 0) + pairs_size ps"

definition required_size :: "string option \<Rightarrow> KeyValuePair list \<Rightarrow> int \<Rightarrow> nat" where
  "required_size user_message pairs num_pairs =
     (case user_message of None \<Rightarrow> 0 | Some m \<Rightarrow> length m) +
     pairs_size (take (nat num_pairs) pairs) + 1 +
     (case user_message of
        None \<Rightarrow> 0
      | Some m \<Rightarrow> if num_pairs > 0 \<and> length m > 0 then 1 else 0)"

text \<open>The \<open>while (*value_ptr)\<close> loop that copies a value and escapes it.\<close>

fun value_loop :: "nat \<Rightarrow> string \<Rightarrow> string \<Rightarrow> string option" where
  "value_loop cap buffer [] = Some buffer"
| "value_loop cap buffer (c # value_ptr) =
     (case (if c = CHR 0x22 then strcat cap buffer [CHR 0x5C, CHR 0x22]
            else if c = CHR 0x5C then strcat cap buffer [CHR 0x5C, CHR 0x5C]
            else strcat cap buffer [c]) of
        None \<Rightarrow> None
      | Some buffer' \<Rightarrow> value_loop cap buffer' value_ptr)"

text \<open>The second loop, over the pairs.\<close>

fun pairs_loop :: "nat \<Rightarrow> string \<Rightarrow> KeyValuePair list \<Rightarrow> string option" where
  "pairs_loop cap buffer [] = Some buffer"
| "pairs_loop cap buffer (p # ps) =
     (case (key p, value p) of
        (Some k, Some v) \<Rightarrow>
          (case (if length buffer > 0 \<and> last buffer \<noteq> CHR '' ''
                 then strcat cap buffer '' '' else Some buffer) of
             None \<Rightarrow> None
           | Some b1 \<Rightarrow>
          (case strcat cap b1 k of
             None \<Rightarrow> None
           | Some b2 \<Rightarrow>
          (case strcat cap b2 [CHR ''='', CHR 0x22] of
             None \<Rightarrow> None
           | Some b3 \<Rightarrow>
          (case value_loop cap b3 v of
             None \<Rightarrow> None
           | Some b4 \<Rightarrow>
          (case strcat cap b4 [CHR 0x22] of
             None \<Rightarrow> None
           | Some b5 \<Rightarrow> pairs_loop cap b5 ps)))))
      | _ \<Rightarrow> pairs_loop cap buffer ps)"

text \<open>
  \<open>format_logfmt(user_message, pairs, num_pairs)\<close>; \<open>malloc n\<close> tells whether the
  allocation of \<open>n\<close> bytes succeeds. The result is \<open>Some None\<close> for the null pointer and
  \<open>Some (Some s)\<close> for the string \<open>s\<close>. Reading more pairs than the array holds is
  outside the model.
\<close>

definition format_logfmt ::
  "(nat \<Rightarrow> bool) \<Rightarrow> string option \<Rightarrow> KeyValuePair list \<Rightarrow> int \<Rightarrow> string option option"
where
  "format_logfmt malloc user_message pairs num_pairs =
     (if nat num_pairs > length pairs then None
      else let required = required_size user_message pairs num_pairs in
        if \<not> malloc required then Some None
        else
          (case (case user_message of
                   None \<Rightarrow> Some []
                 | Some m \<Rightarrow> if length m > 0 then strcat required [] m else Some []) of
             None \<Rightarrow> None
           | Some buffer \<Rightarrow>
               map_option Some (pairs_loop required buffer (take (nat num_pairs) pairs))))"

section \<open>The line that the formatter builds\<close>

text \<open>
  The escaping of a value and the token \<open>key="value"\<close>, as the specification words them.
\<close>

definition esc :: "char \<Rightarrow> string" where
  "esc c = (if c = CHR 0x22 then [CHR 0x5C, CHR 0x22]
            else if c = CHR 0x5C then [CHR 0x5C, CHR 0x5C] else [c])"

definition escaped :: "string \<Rightarrow> string" where
  "escaped v = concat (map esc v)"

definition token :: "string \<Rightarrow> string \<Rightarrow> string" where
  "token k v = k @ [CHR ''='', CHR 0x22] @ escaped v @ [CHR 0x22]"

text \<open>
  The pairs that have both a key and a value, in order; what one such pair appends to the
  text accumulated so far; and the text of a message pointer that may be null.
\<close>

definition non_null :: "KeyValuePair list \<Rightarrow> (string \<times> string) list" where
  "non_null pairs =
     List.map_filter
       (\<lambda>p. case (key p, value p) of (Some k, Some v) \<Rightarrow> Some (k, v) | _ \<Rightarrow> None) pairs"

definition add_token :: "string \<Rightarrow> string \<times> string \<Rightarrow> string" where
  "add_token acc kv =
     acc @ (if acc \<noteq> [] \<and> last acc \<noteq> CHR '' '' then '' '' else []) @ token (fst kv) (snd kv)"

definition message_text :: "string option \<Rightarrow> string" where
  "message_text user_message = (case user_message of None \<Rightarrow> [] | Some m \<Rightarrow> m)"

text \<open>A pair array in which no key and no value is null.\<close>

definition pairs_of :: "(string \<times> string) list \<Rightarrow> KeyValuePair list" where
  "pairs_of kvs = map (\<lambda>kv. \<lparr>key = Some (fst kv), value = Some (snd kv)\<rparr>) kvs"

text \<open>The number of bytes of a value that are escaped.\<close>

definition escapes :: "string \<Rightarrow> nat" where
  "escapes v = length (filter (\<lambda>c. c = CHR 0x22 \<or> c = CHR 0x5C) v)"

section \<open>The parser for unknown error types (slog.c)\<close>

text \<open>
  A pointer is a 64-bit address, 0 being the null pointer. The text that \<open>%p\<close> produces
  is implementation-defined, so \<open>parse_unknown_error\<close> takes the conversion as the
  parameter \<open>pfmt\<close>; \<open>percent_p\<close> is the conversion of the GNU C library. The three
  booleans tell whether \<open>calloc\<close> and the two \<open>strdup\<close> calls succeed. \<open>num_pairs_out\<close>
  is \<open>None\<close> for a null pointer and otherwise holds the integer it points to; the function
  returns the array (or the null pointer) and the integer afterwards. \<open>value_buffer\<close>
  has 128 bytes.
\<close>

definition hex_digit :: "nat \<Rightarrow> char" where
  "hex_digit n = ''0123456789abcdef'' ! (n mod 16)"

function hex_nat :: "nat \<Rightarrow> string" where
  "hex_nat n = (if n < 16 then [hex_digit n] else hex_nat (n div 16) @ [hex_digit n])"
  by pat_completeness auto
termination
  by (relation "measure id") auto

declare hex_nat.simps [simp del]

definition percent_p :: "64 word \<Rightarrow> string" where
  "percent_p a = (if a = 0 then ''(nil)'' else ''0x'' @ hex_nat (unat a))"

definition parse_unknown_error ::
  "(64 word \<Rightarrow> string) \<Rightarrow> bool \<Rightarrow> bool \<Rightarrow> bool \<Rightarrow> 64 word \<Rightarrow> int option \<Rightarrow>
     KeyValuePair list option \<times> int option"
where
  "parse_unknown_error pfmt calloc_ok strdup_key_ok strdup_value_ok error_details num_pairs_out =
     (let cleared = map_option (\<lambda>_. 0) num_pairs_out in
      if error_details = 0 then (None, cleared)
      else if \<not> calloc_ok then (None, cleared)
      else if \<not> strdup_key_ok then (None, cleared)
      else
        let value_buffer = take 127 (''unhandled_type_at_address_'' @ pfmt error_details) in
        if \<not> strdup_value_ok then (None, cleared)
        else (Some [\<lparr>key = Some ''unknown_error_type'', value = Some value_buffer\<rparr>],
              map_option (\<lambda>_. 1) num_pairs_out))"

section \<open>Properties of the stringifier\<close>

subsection \<open>Writing into the buffer\<close>

lemma length_store: "off + length w \<le> length b \<Longrightarrow> length (store b off w) = length b"
  by (simp add: store_def)

lemma update_store: "off < length b \<Longrightarrow> b[off := c] = store b off [c]"
  by (simp add: store_def upd_conv_take_nth_drop)

lemma store_store:
  "off + length w1 + length x \<le> length b \<Longrightarrow> length x \<le> length w2 \<Longrightarrow>
   store (store b off (w1 @ x)) (off + length w1) w2 = store b off (w1 @ w2)"
proof -
  assume a: "off + length w1 + length x \<le> length b" and b: "length x \<le> length w2"
  have "length b \<le> off \<Longrightarrow> length w1 = 0" using a by arith
  then show ?thesis using a b
    by (auto simp: store_def min_def add.assoc add.commute add.left_commute)
qed

lemma splice_store:
  "off \<le> length b \<Longrightarrow> take off b @ store (drop off b) i w = store b (off + i) w"
  apply (simp add: store_def take_add add.assoc)
  by (simp add: add.commute add.left_commute)

lemma snprintf_store_fits:
  "length out < n \<Longrightarrow> snprintf_store dst n out = store dst 0 (out @ [NUL])"
  by (auto simp: snprintf_store_def store_def Let_def min_def)


lemma snprintf_ret_fits: "int (length out) \<le> INT_MAX \<Longrightarrow> snprintf_ret out = int (length out)"
  by (simp add: snprintf_ret_def)

lemma pending_Cons: "pending first (t # ts) = (if first then [] else '' '') @ t @ pending False ts"
  by (cases ts) (simp_all add: pending_def)

lemma store_Nil [simp]: "store b off [] = b"
  by (simp add: store_def)

lemma pending_True: "pending True ts = join_sp ts"
  by (simp add: pending_def)

lemma field_logic_fits:
  "fields_text name_prefix fs = Some ts \<Longrightarrow>
   offset + length (pending first ts) < buffer_size \<Longrightarrow>
   buffer_size \<le> length buffer \<Longrightarrow>
   int (offset + length (pending first ts)) \<le> INT_MAX \<Longrightarrow>
   field_logic buffer_size name_prefix fs buffer offset first =
     Some (int (offset + length (pending first ts)),
           store buffer offset (pending first ts @ [NUL]))"
proof (induction buffer_size name_prefix fs buffer offset first arbitrary: ts
       rule: field_logic.induct)
  case (1 buffer_size name_prefix buffer offset first)
  then show ?case
    by (simp add: pending_def terminate_def update_store)
next
  case (2 buffer_size name_prefix cname fmt_spec v fs buffer offset first)
  let ?fmt = "format_string_buffer (field_full_name name_prefix cname) fmt_spec"
  from "2.prems"(1) obtain out rest where out: "c_format ?fmt (Some v) = Some out"
    and rest: "fields_text name_prefix fs = Some rest" and ts: "ts = out # rest"
    by (auto split: option.splits)
  define sp where "sp = (if first then [] else '' '')"
  define off1 where "off1 = offset + length sp"
  define b1 where "b1 = store buffer offset sp"
  define tl where "tl = pending False rest"
  have pend: "pending first ts = sp @ out @ tl"
    by (simp add: ts pending_Cons sp_def tl_def)
  have len: "offset + length sp + length out + length tl < buffer_size"
    using "2.prems"(2) by (simp add: pend add.assoc)
  have imax: "int (offset + length sp + length out + length tl) \<le> INT_MAX"
    using "2.prems"(4) by (simp add: pend add.assoc)
  have sep: "separator buffer_size buffer offset first = Next b1 off1"
  proof (cases first)
    case True
    then show ?thesis by (simp add: separator_def sp_def off1_def b1_def)
  next
    case False
    moreover have "offset < buffer_size" "offset < length buffer" "\<not> INT_MAX < int offset + 1"
      using len imax "2.prems"(3) False by (simp_all add: sp_def)
    ultimately show ?thesis
      by (simp add: separator_def sp_def off1_def b1_def update_store)
  qed
  have rem: "remaining buffer_size off1 = buffer_size - off1"
    and fit: "length out < buffer_size - off1"
    using len by (simp_all add: remaining_def off1_def)
  define b2 where
    "b2 = take off1 b1 @ snprintf_store (drop off1 b1) (remaining buffer_size off1) out"
  have lb1: "length b1 = length buffer"
    using len "2.prems"(3) by (simp add: b1_def length_store)
  have "b2 = store b1 (off1 + 0) (out @ [NUL])"
    unfolding b2_def rem using fit len lb1 "2.prems"(3)
    by (simp add: snprintf_store_fits splice_store off1_def del: add_0_right)
  also have "\<dots> = store buffer offset (sp @ out @ [NUL])"
    unfolding b1_def off1_def using len "2.prems"(3)
    using store_store [of offset sp "[]" buffer "out @ [NUL]"] by simp
  finally have b2: "b2 = store buffer offset (sp @ out @ [NUL])" .
  have ret: "snprintf_ret out = int (length out)"
    using imax by (simp add: snprintf_ret_fits)
  have lb2: "length b2 = length buffer"
    unfolding b2 using len "2.prems"(3) by (simp add: length_store)
  have "field_logic buffer_size name_prefix fs b2 (off1 + nat (snprintf_ret out)) False =
        Some (int (off1 + nat (snprintf_ret out) + length (pending False rest)),
              store b2 (off1 + nat (snprintf_ret out)) (pending False rest @ [NUL]))"
  proof (rule "2.IH" [OF sep out b2_def refl _ _ rest])
    show "\<not> (snprintf_ret out < 0 \<or> remaining buffer_size off1 \<le> nat (snprintf_ret out))"
      using fit by (simp add: ret rem)
    show "\<not> INT_MAX < int off1 + snprintf_ret out"
      using imax by (simp add: ret off1_def)
    show "off1 + nat (snprintf_ret out) + length (pending False rest) < buffer_size"
      using len by (simp add: ret off1_def tl_def)
    show "buffer_size \<le> length b2"
      using lb2 "2.prems"(3) by simp
    show "int (off1 + nat (snprintf_ret out) + length (pending False rest)) \<le> INT_MAX"
      using imax by (simp add: ret off1_def tl_def)
  qed
  moreover have "store b2 (off1 + length out) (tl @ [NUL]) = store buffer offset (sp @ out @ tl @ [NUL])"
    unfolding b2 off1_def using len "2.prems"(3)
    using store_store [of offset "sp @ out" "[NUL]" buffer "tl @ [NUL]"] by (simp add: add.assoc)
  ultimately have X: "field_logic buffer_size name_prefix fs b2 (off1 + nat (snprintf_ret out)) False =
        Some (int (offset + length (pending first ts)),
              store buffer offset (pending first ts @ [NUL]))"
    by (simp add: ret pend tl_def off1_def add.assoc)
  have c1: "\<not> (snprintf_ret out < 0 \<or> remaining buffer_size off1 \<le> nat (snprintf_ret out))"
    using fit by (simp add: ret rem)
  have c2: "\<not> INT_MAX < int off1 + snprintf_ret out"
    using imax by (simp add: ret off1_def)
  show ?case
    by (simp only: field_logic.simps sep flow.case out option.case Let_def c1 c2 if_False
        b2_def [symmetric] X)
next
  case (3 buffer_size name_prefix cname sub fs buffer offset first)
  let ?full = "Some (field_full_name name_prefix cname)"
  from "3.prems"(1) obtain subts rest where subts: "fields_text ?full sub = Some subts"
    and rest: "fields_text name_prefix fs = Some rest" and ts: "ts = join_sp subts # rest"
    by (auto split: option.splits)
  define out where "out = join_sp subts"
  define sp where "sp = (if first then [] else '' '')"
  define off1 where "off1 = offset + length sp"
  define b1 where "b1 = store buffer offset sp"
  define tl where "tl = pending False rest"
  have pend: "pending first ts = sp @ out @ tl"
    by (simp add: ts pending_Cons sp_def tl_def out_def)
  have len: "offset + length sp + length out + length tl < buffer_size"
    using "3.prems"(2) by (simp add: pend add.assoc)
  have imax: "int (offset + length sp + length out + length tl) \<le> INT_MAX"
    using "3.prems"(4) by (simp add: pend add.assoc)
  have sep: "separator buffer_size buffer offset first = Next b1 off1"
  proof (cases first)
    case True
    then show ?thesis by (simp add: separator_def sp_def off1_def b1_def)
  next
    case False
    moreover have "offset < buffer_size" "offset < length buffer" "\<not> INT_MAX < int offset + 1"
      using len imax "3.prems"(3) False by (simp_all add: sp_def)
    ultimately show ?thesis
      by (simp add: separator_def sp_def off1_def b1_def update_store)
  qed
  have rem: "remaining buffer_size off1 = buffer_size - off1"
    and fit: "length out < buffer_size - off1"
    using len by (simp_all add: remaining_def off1_def)
  have lb1: "length b1 = length buffer"
    using len "3.prems"(3) by (simp add: b1_def length_store)
  have nested: "field_logic (remaining buffer_size off1) ?full sub (drop off1 b1) 0 True =
        Some (int (0 + length (pending True subts)),
              store (drop off1 b1) 0 (pending True subts @ [NUL]))"
  proof (rule "3.IH"(1) [OF sep subts])
    show "0 + length (pending True subts) < remaining buffer_size off1"
      using fit by (simp add: pending_True rem out_def)
    show "remaining buffer_size off1 \<le> length (drop off1 b1)"
      using lb1 "3.prems"(3) by (simp add: rem)
    show "int (0 + length (pending True subts)) \<le> INT_MAX"
      using imax by (simp add: pending_True out_def)
  qed
  define b2 where "b2 = take off1 b1 @ store (drop off1 b1) 0 (out @ [NUL])"
  have nested': "field_logic (remaining buffer_size off1) ?full sub (drop off1 b1) 0 True =
        Some (int (length out), store (drop off1 b1) 0 (out @ [NUL]))"
    using nested by (simp add: pending_True out_def)
  have "b2 = store b1 (off1 + 0) (out @ [NUL])"
    unfolding b2_def using len lb1 "3.prems"(3)
    by (simp add: splice_store off1_def del: add_0_right)
  also have "\<dots> = store buffer offset (sp @ out @ [NUL])"
    unfolding b1_def off1_def using len "3.prems"(3)
    using store_store [of offset sp "[]" buffer "out @ [NUL]"] by simp
  finally have b2: "b2 = store buffer offset (sp @ out @ [NUL])" .
  have lb2: "length b2 = length buffer"
    unfolding b2 using len "3.prems"(3) by (simp add: length_store)
  have "field_logic buffer_size name_prefix fs b2 (off1 + nat (int (length out))) False =
        Some (int (off1 + nat (int (length out)) + length (pending False rest)),
              store b2 (off1 + nat (int (length out))) (pending False rest @ [NUL]))"
  proof (rule "3.IH"(2) [OF sep nested' refl b2_def _ _ rest])
    show "\<not> int (length out) < 0" by simp
    show "\<not> INT_MAX < int off1 + int (length out)"
      using imax by (simp add: off1_def)
    show "off1 + nat (int (length out)) + length (pending False rest) < buffer_size"
      using len by (simp add: off1_def tl_def)
    show "buffer_size \<le> length b2"
      using lb2 "3.prems"(3) by simp
    show "int (off1 + nat (int (length out)) + length (pending False rest)) \<le> INT_MAX"
      using imax by (simp add: off1_def tl_def)
  qed
  moreover have "store b2 (off1 + length out) (tl @ [NUL]) = store buffer offset (sp @ out @ tl @ [NUL])"
    unfolding b2 off1_def using len "3.prems"(3)
    using store_store [of offset "sp @ out" "[NUL]" buffer "tl @ [NUL]"] by (simp add: add.assoc)
  ultimately have X: "field_logic buffer_size name_prefix fs b2 (off1 + nat (int (length out))) False =
        Some (int (offset + length (pending first ts)),
              store buffer offset (pending first ts @ [NUL]))"
    by (simp add: pend tl_def off1_def add.assoc)
  have c1: "\<not> int (length out) < 0" by simp
  have c2: "\<not> INT_MAX < int off1 + int (length out)"
    using imax by (simp add: off1_def)
  show ?case
    by (simp only: field_logic.simps sep flow.case nested' option.case prod.case Let_def c1 c2
        if_False b2_def [symmetric] X)
qed

subsection \<open>A rendering that fits\<close>

text \<open>
  When the text of the record and its terminator fit the capacity, the call stores exactly
  that text and the terminator at the start of the buffer, leaves the rest of the buffer
  alone, and returns the length of the text.
\<close>

lemma to_str_fits:
  assumes "rendered name_prefix fs = Some t"
    and "length t < buffer_size" and "buffer_size \<le> length buffer"
    and "int (length t) \<le> INT_MAX"
  shows "to_str buffer buffer_size (Some fs) name_prefix =
           Some (int (length t), t @ NUL # drop (Suc (length t)) buffer)"
proof -
  from assms(1) obtain ts where ts: "fields_text name_prefix fs = Some ts" and t: "t = join_sp ts"
    by (auto simp: rendered_def)
  have "field_logic buffer_size name_prefix fs buffer 0 True =
          Some (int (0 + length (pending True ts)), store buffer 0 (pending True ts @ [NUL]))"
    using assms(2-4) by (intro field_logic_fits [OF ts]) (simp_all add: pending_True t)
  then show ?thesis
    by (simp add: to_str_def pending_True t store_def)
qed

subsection \<open>The buffer keeps its length and ends up terminated\<close>

lemma length_snprintf_splice:
  "remaining buffer_size off \<le> length b - off \<Longrightarrow>
   length (take off b @ snprintf_store (drop off b) (remaining buffer_size off) out) = length b"
  by (auto simp: snprintf_store_def Let_def min_def)

lemma length_terminate [simp]: "length (terminate buffer_size b off) = length b"
  by (simp add: terminate_def)

lemma remaining_le: "buffer_size \<le> length b \<Longrightarrow> remaining buffer_size off \<le> length b - off"
  by (auto simp: remaining_def)

lemma separator_Next:
  "separator buffer_size buffer offset first = Next b1 off1 \<Longrightarrow> length b1 = length buffer"
  by (auto simp: separator_def split: if_splits)

lemma separator_Return:
  "separator buffer_size buffer offset first = Return (Some (r, b')) \<Longrightarrow>
     r = - 1 \<and> b' = terminate buffer_size buffer buffer_size"
  by (auto simp: separator_def terminate_def split: if_splits)

lemma field_logic_length:
  "field_logic buffer_size name_prefix fs buffer offset first = Some (r, b') \<Longrightarrow>
   buffer_size \<le> length buffer \<Longrightarrow> length b' = length buffer"
proof (induction buffer_size name_prefix fs buffer offset first arbitrary: r b'
       rule: field_logic.induct)
  case (1 buffer_size name_prefix buffer offset first)
  then show ?case by auto
next
  case (2 buffer_size name_prefix cname fmt_spec v fs buffer offset first)
  show ?case
  proof (cases "separator buffer_size buffer offset first")
    case (Return x)
    with "2.prems" show ?thesis by (auto dest: separator_Return)
  next
    case (Next b1 off1)
    note lb1 = separator_Next [OF Next]
    from "2.prems"(1) Next obtain out where
      out: "c_format (format_string_buffer (field_full_name name_prefix cname) fmt_spec) (Some v) = Some out"
      by (auto split: option.splits)
    define b2 where
      "b2 = take off1 b1 @ snprintf_store (drop off1 b1) (remaining buffer_size off1) out"
    have lb2: "length b2 = length buffer"
      unfolding b2_def using "2.prems"(2) lb1
      by (simp add: length_snprintf_splice remaining_le del: length_append)
    show ?thesis
    proof (cases "snprintf_ret out < 0 \<or> remaining buffer_size off1 \<le> nat (snprintf_ret out)")
      case True
      with "2.prems"(1) Next out lb2 show ?thesis
        by (auto simp: Let_def b2_def [symmetric] simp del: length_append)
    next
      case False
      with "2.prems"(1) Next out have
        nomax: "\<not> INT_MAX < int off1 + snprintf_ret out" and
        rec: "field_logic buffer_size name_prefix fs b2 (off1 + nat (snprintf_ret out)) False = Some (r, b')"
        by (auto simp: Let_def b2_def [symmetric] split: if_splits)
      have "length b' = length b2"
        using "2.IH" [OF Next out b2_def refl False nomax rec] lb2 "2.prems"(2) by simp
      then show ?thesis using lb2 by simp
    qed
  qed
next
  case (3 buffer_size name_prefix cname sub fs buffer offset first)
  show ?case
  proof (cases "separator buffer_size buffer offset first")
    case (Return x)
    with "3.prems" show ?thesis by (auto dest: separator_Return)
  next
    case (Next b1 off1)
    note lb1 = separator_Next [OF Next]
    from "3.prems"(1) Next obtain res nested where
      nested: "field_logic (remaining buffer_size off1) (Some (field_full_name name_prefix cname))
                  sub (drop off1 b1) 0 True = Some (res, nested)"
      by (auto split: option.splits)
    have ln: "length nested = length (drop off1 b1)"
      using "3.IH"(1) [OF Next nested] lb1 "3.prems"(2) remaining_le [of buffer_size b1 off1]
      by simp
    define b2 where "b2 = take off1 b1 @ nested"
    have lb2: "length b2 = length buffer"
      unfolding b2_def using ln lb1 by simp
    show ?thesis
    proof (cases "res < 0")
      case True
      with "3.prems"(1) Next nested lb2 show ?thesis
        by (auto simp: Let_def b2_def [symmetric] simp del: length_append)
    next
      case False
      with "3.prems"(1) Next nested have
        nomax: "\<not> INT_MAX < int off1 + res" and
        rec: "field_logic buffer_size name_prefix fs b2 (off1 + nat res) False = Some (r, b')"
        by (auto simp: Let_def b2_def [symmetric] split: if_splits)
      have "length b' = length b2"
        using "3.IH"(2) [OF Next nested refl b2_def False nomax rec] lb2 "3.prems"(2) by simp
      then show ?thesis using lb2 by simp
    qed
  qed
qed

lemma terminate_has_NUL:
  "1 \<le> buffer_size \<Longrightarrow> buffer_size \<le> length b \<Longrightarrow>
   \<exists>i<buffer_size. terminate buffer_size b off ! i = NUL"
proof (cases "off < buffer_size")
  case True
  assume "1 \<le> buffer_size" "buffer_size \<le> length b"
  with True have "terminate buffer_size b off ! off = NUL"
    by (simp add: terminate_def)
  with True show ?thesis by blast
next
  case False
  assume a: "1 \<le> buffer_size" "buffer_size \<le> length b"
  with False have "terminate buffer_size b off ! (buffer_size - 1) = NUL"
    by (simp add: terminate_def)
  moreover have "buffer_size - 1 < buffer_size" using a by simp
  ultimately show ?thesis by blast
qed

lemma field_logic_terminated:
  "field_logic buffer_size name_prefix fs buffer offset first = Some (r, b') \<Longrightarrow>
   1 \<le> buffer_size \<Longrightarrow> buffer_size \<le> length buffer \<Longrightarrow>
   \<exists>i<buffer_size. b' ! i = NUL"
proof (induction buffer_size name_prefix fs buffer offset first arbitrary: r b'
       rule: field_logic.induct)
  case (1 buffer_size name_prefix buffer offset first)
  then show ?case using terminate_has_NUL [of buffer_size buffer offset] by auto
next
  case (2 buffer_size name_prefix cname fmt_spec v fs buffer offset first)
  show ?case
  proof (cases "separator buffer_size buffer offset first")
    case (Return x)
    with "2.prems" show ?thesis
      using terminate_has_NUL [of buffer_size buffer buffer_size]
      by (auto dest: separator_Return)
  next
    case (Next b1 off1)
    note lb1 = separator_Next [OF Next]
    from "2.prems"(1) Next obtain out where
      out: "c_format (format_string_buffer (field_full_name name_prefix cname) fmt_spec) (Some v) = Some out"
      by (auto split: option.splits)
    define b2 where
      "b2 = take off1 b1 @ snprintf_store (drop off1 b1) (remaining buffer_size off1) out"
    have lb2: "length b2 = length buffer"
      unfolding b2_def using "2.prems"(3) lb1
      by (simp add: length_snprintf_splice remaining_le del: length_append)
    show ?thesis
    proof (cases "snprintf_ret out < 0 \<or> remaining buffer_size off1 \<le> nat (snprintf_ret out)")
      case True
      with "2.prems"(1) Next out have "b' = terminate buffer_size b2 off1"
        by (auto simp: Let_def b2_def [symmetric])
      then show ?thesis
        using terminate_has_NUL [of buffer_size b2 off1] "2.prems"(2,3) lb2 by simp
    next
      case False
      with "2.prems"(1) Next out have
        nomax: "\<not> INT_MAX < int off1 + snprintf_ret out" and
        rec: "field_logic buffer_size name_prefix fs b2 (off1 + nat (snprintf_ret out)) False = Some (r, b')"
        by (auto simp: Let_def b2_def [symmetric] split: if_splits)
      show ?thesis
        using "2.IH" [OF Next out b2_def refl False nomax rec] lb2 "2.prems"(2,3) by simp
    qed
  qed
next
  case (3 buffer_size name_prefix cname sub fs buffer offset first)
  show ?case
  proof (cases "separator buffer_size buffer offset first")
    case (Return x)
    with "3.prems" show ?thesis
      using terminate_has_NUL [of buffer_size buffer buffer_size]
      by (auto dest: separator_Return)
  next
    case (Next b1 off1)
    note lb1 = separator_Next [OF Next]
    from "3.prems"(1) Next obtain res nested where
      nested: "field_logic (remaining buffer_size off1) (Some (field_full_name name_prefix cname))
                  sub (drop off1 b1) 0 True = Some (res, nested)"
      by (auto split: option.splits)
    have ln: "length nested = length (drop off1 b1)"
      using field_logic_length [OF nested] lb1 "3.prems"(3) remaining_le [of buffer_size b1 off1]
      by simp
    define b2 where "b2 = take off1 b1 @ nested"
    have lb2: "length b2 = length buffer"
      unfolding b2_def using ln lb1 by simp
    show ?thesis
    proof (cases "res < 0")
      case True
      with "3.prems"(1) Next nested have "b' = terminate buffer_size b2 off1"
        by (auto simp: Let_def b2_def [symmetric])
      then show ?thesis
        using terminate_has_NUL [of buffer_size b2 off1] "3.prems"(2,3) lb2 by simp
    next
      case False
      with "3.prems"(1) Next nested have
        nomax: "\<not> INT_MAX < int off1 + res" and
        rec: "field_logic buffer_size name_prefix fs b2 (off1 + nat res) False = Some (r, b')"
        by (auto simp: Let_def b2_def [symmetric] split: if_splits)
      show ?thesis
        using "3.IH"(2) [OF Next nested refl b2_def False nomax rec] lb2 "3.prems"(2,3) by simp
    qed
  qed
qed

subsection \<open>Every call returns\<close>

text \<open>
  With a capacity that fits an \<open>int\<close> no offset overflows, so a call whose fields the
  model can format always returns: the error value \<open>-1\<close> or an offset up to the
  capacity.
\<close>

lemma separator_total:
  assumes "offset \<le> buffer_size" and "int buffer_size \<le> INT_MAX"
  shows "(\<exists>c. separator buffer_size buffer offset first = Return (Some (- 1, c))) \<or>
         (\<exists>s off1. separator buffer_size buffer offset first = Next s off1 \<and> off1 \<le> buffer_size)"
  using assms by (auto simp: separator_def)

lemma field_logic_total:
  "fields_text name_prefix fs = Some ts \<Longrightarrow> offset \<le> buffer_size \<Longrightarrow>
   int buffer_size \<le> INT_MAX \<Longrightarrow>
   \<exists>r c. field_logic buffer_size name_prefix fs buffer offset first = Some (r, c) \<and>
         - 1 \<le> r \<and> r \<le> int buffer_size"
proof (induction buffer_size name_prefix fs buffer offset first arbitrary: ts
       rule: field_logic.induct)
  case (1 buffer_size name_prefix buffer offset first)
  then show ?case by simp
next
  case (2 buffer_size name_prefix cname fmt_spec v fs buffer offset first)
  let ?fmt = "format_string_buffer (field_full_name name_prefix cname) fmt_spec"
  from "2.prems"(1) obtain out rest where out: "c_format ?fmt (Some v) = Some out"
    and rest: "fields_text name_prefix fs = Some rest"
    by (auto split: option.splits)
  from separator_total [OF "2.prems"(2,3), of buffer first] show ?case
  proof (elim disjE exE conjE)
    fix c assume "separator buffer_size buffer offset first = Return (Some (- 1, c))"
    then show ?thesis by simp
  next
    fix s off1
    assume Next: "separator buffer_size buffer offset first = Next s off1"
      and o1: "off1 \<le> buffer_size"
    define p where
      "p = take off1 s @ snprintf_store (drop off1 s) (remaining buffer_size off1) out"
    show ?thesis
    proof (cases "snprintf_ret out < 0 \<or> remaining buffer_size off1 \<le> nat (snprintf_ret out)")
      case True
      then show ?thesis by (simp add: Next out Let_def)
    next
      case False
      then have fit: "off1 + nat (snprintf_ret out) \<le> buffer_size" and nn: "0 \<le> snprintf_ret out"
        by (auto simp: remaining_def split: if_splits)
      have nomax: "\<not> INT_MAX < int off1 + snprintf_ret out"
        using fit nn "2.prems"(3) by simp
      from "2.IH" [OF Next out p_def refl False nomax rest fit "2.prems"(3)]
      show ?thesis
        using False nomax by (simp add: Next out Let_def p_def)
    qed
  qed
next
  case (3 buffer_size name_prefix cname sub fs buffer offset first)
  let ?full = "Some (field_full_name name_prefix cname)"
  from "3.prems"(1) obtain subts rest where subts: "fields_text ?full sub = Some subts"
    and rest: "fields_text name_prefix fs = Some rest"
    by (auto split: option.splits)
  from separator_total [OF "3.prems"(2,3), of buffer first] show ?case
  proof (elim disjE exE conjE)
    fix c assume "separator buffer_size buffer offset first = Return (Some (- 1, c))"
    then show ?thesis by simp
  next
    fix s off1
    assume Next: "separator buffer_size buffer offset first = Next s off1"
      and o1: "off1 \<le> buffer_size"
    have rmax: "int (remaining buffer_size off1) \<le> INT_MAX"
      using "3.prems"(3) by (simp add: remaining_def)
    from "3.IH"(1) [OF Next subts _ rmax, of ]
    obtain res n where
      nested: "field_logic (remaining buffer_size off1) ?full sub (drop off1 s) 0 True = Some (res, n)"
      and rle: "res \<le> int (remaining buffer_size off1)"
      by auto
    define p where "p = take off1 s @ n"
    show ?thesis
    proof (cases "res < 0")
      case True
      then show ?thesis by (simp add: Next nested Let_def)
    next
      case False
      have fit: "off1 + nat res \<le> buffer_size"
        using rle o1 False by (simp add: remaining_def split: if_splits)
      have nomax: "\<not> INT_MAX < int off1 + res"
        using fit False "3.prems"(3) by simp
      from "3.IH"(2) [OF Next nested refl p_def False nomax rest fit "3.prems"(3)]
      show ?thesis
        using False nomax by (simp add: Next nested Let_def p_def)
    qed
  qed
qed

subsection \<open>Capacity 0\<close>

lemma dec_nat_nonempty: "dec_nat n \<noteq> []"
  by (subst dec_nat.simps) simp

lemma dec_int_nonempty: "dec_int i \<noteq> []"
  by (simp add: dec_int_def dec_nat_nonempty)

lemma c_format_eq_nonempty:
  "c_format (x @ CHR ''='' # y) a = Some out \<Longrightarrow> out \<noteq> []"
proof (induction x a arbitrary: out rule: c_format.induct)
  case (1 a)
  then show ?case by (cases y) auto
next
  case (2 c a)
  then show ?case by (auto split: if_splits)
next
  case (3 c d rest a)
  then show ?case
    by (auto simp: dec_int_nonempty split: if_splits option.splits cval.splits)
qed

lemma length_field_full_name: "length (field_full_name name_prefix cname) \<le> 255"
  by (auto simp: field_full_name_def split: option.splits)

lemma format_string_buffer_eq:
  "\<exists>y. format_string_buffer (field_full_name name_prefix cname) fmt_spec =
         field_full_name name_prefix cname @ CHR ''='' # y"
proof -
  let ?n = "field_full_name name_prefix cname"
  have "511 - length ?n = Suc (510 - length ?n)"
    using length_field_full_name [of name_prefix cname] by simp
  then show ?thesis
    by (simp add: format_string_buffer_def)
qed

lemma field_text_nonempty:
  "c_format (format_string_buffer (field_full_name name_prefix cname) fmt_spec) a = Some out
   \<Longrightarrow> out \<noteq> []"
  using format_string_buffer_eq [of name_prefix cname fmt_spec] c_format_eq_nonempty
  by metis

lemma separator_zero:
  "separator 0 buffer 0 first = (if first then Next buffer 0 else Return (Some (- 1, buffer)))"
  by (simp add: separator_def)

lemma field_logic_zero:
  "fields_text name_prefix fs = Some ts \<Longrightarrow> buffer_size = 0 \<Longrightarrow> offset = 0 \<Longrightarrow>
   field_logic buffer_size name_prefix fs buffer offset first =
     Some (if pending first ts = [] then 0 else - 1, buffer)"
proof (induction buffer_size name_prefix fs buffer offset first arbitrary: ts
       rule: field_logic.induct)
  case (1 buffer_size name_prefix buffer offset first)
  then show ?case by (simp add: pending_def terminate_def)
next
  case (2 buffer_size name_prefix cname fmt_spec v fs buffer offset first)
  let ?fmt = "format_string_buffer (field_full_name name_prefix cname) fmt_spec"
  from "2.prems"(1) obtain out rest where out: "c_format ?fmt (Some v) = Some out"
    and rest: "fields_text name_prefix fs = Some rest" and ts: "ts = out # rest"
    by (auto split: option.splits)
  have ne: "out \<noteq> []" using field_text_nonempty [OF out] .
  have pend: "pending first ts \<noteq> []" using ne by (simp add: ts pending_Cons)
  show ?case
  proof (cases first)
    case True
    then show ?thesis using "2.prems"(2,3) out pend
      by (simp add: separator_zero remaining_def snprintf_store_def terminate_def Let_def
          snprintf_ret_def)
  next
    case False
    then show ?thesis using "2.prems"(2,3) pend by (simp add: separator_zero)
  qed
next
  case (3 buffer_size name_prefix cname sub fs buffer offset first)
  let ?full = "Some (field_full_name name_prefix cname)"
  from "3.prems"(1) obtain subts rest where subts: "fields_text ?full sub = Some subts"
    and rest: "fields_text name_prefix fs = Some rest" and ts: "ts = join_sp subts # rest"
    by (auto split: option.splits)
  have pend: "pending first ts = (if first then [] else '' '') @ join_sp subts @ pending False rest"
    by (simp add: ts pending_Cons)
  show ?case
  proof (cases first)
    case False
    then show ?thesis using "3.prems"(2,3) pend by (simp add: separator_zero)
  next
    case True
    have sep: "separator buffer_size buffer offset first = Next buffer 0"
      using True "3.prems"(2,3) by (simp add: separator_zero)
    have rem: "remaining buffer_size 0 = 0" using "3.prems"(2) by (simp add: remaining_def)
    have nested: "field_logic (remaining buffer_size 0) ?full sub (drop 0 buffer) 0 True =
            Some (if pending True subts = [] then 0 else - 1, drop 0 buffer)"
      by (rule "3.IH"(1) [OF sep subts rem refl])
    show ?thesis
    proof (cases "join_sp subts = []")
      case False
      then show ?thesis using nested pend True "3.prems"(2,3) sep
        by (simp add: pending_True terminate_def)
    next
      case e: True
      have n0: "field_logic (remaining buffer_size 0) ?full sub (drop 0 buffer) 0 True =
            Some (0, drop 0 buffer)"
        using nested e by (simp add: pending_True)
      have "field_logic buffer_size name_prefix fs (take 0 buffer @ drop 0 buffer) (0 + nat 0) False =
              Some (if pending False rest = [] then 0 else - 1, take 0 buffer @ drop 0 buffer)"
        by (rule "3.IH"(2) [OF sep n0 refl refl _ _ rest "3.prems"(2)])
           (simp_all add: INT_MAX_def)
      then show ?thesis using n0 pend True e "3.prems"(2,3) sep
        by (simp add: INT_MAX_def)
    qed
  qed
qed

subsection \<open>Keys under a prefix\<close>

lemma c_format_literal:
  "CHR ''%'' \<notin> set k \<Longrightarrow> c_format (k @ rest) a = map_option ((@) k) (c_format rest a)"
proof (induction k)
  case Nil
  then show ?case by (simp add: option.map_ident)
next
  case (Cons c k)
  then have c: "c \<noteq> CHR ''%''" and IH: "c_format (k @ rest) a = map_option ((@) k) (c_format rest a)"
    by auto
  show ?case
  proof (cases "k @ rest")
    case Nil
    then show ?thesis using c by simp
  next
    case (Cons d r)
    have "c_format ((c # k) @ rest) a = map_option ((#) c) (c_format (k @ rest) a)"
      using c Cons by simp
    then show ?thesis by (simp add: IH option.map_comp comp_def)
  qed
qed

lemma rel_path_nonempty: "cname \<noteq> [] \<Longrightarrow> rel_path rel cname \<noteq> []"
  by (simp add: rel_path_def)

lemma full_name_under:
  assumes "cname \<noteq> []"
    and "(if P = [] then 0 else Suc (length P)) + length (rel_path rel cname) \<le> 255"
  shows "field_full_name (Some (under P rel)) cname = dotted P (rel_path rel cname)"
  using assms by (auto simp: field_full_name_def under_def dotted_def rel_path_def)

lemma percent_free_dotted:
  "CHR ''%'' \<notin> set P \<Longrightarrow> CHR ''%'' \<notin> set rel \<Longrightarrow> CHR ''%'' \<notin> set cname \<Longrightarrow>
   CHR ''%'' \<notin> set (dotted P (rel_path rel cname)) \<and> CHR ''%'' \<notin> set (rel_path rel cname)"
  by (auto simp: dotted_def rel_path_def)

lemma length_dotted:
  "k \<noteq> [] \<Longrightarrow> length (dotted P k) = (if P = [] then 0 else Suc (length P)) + length k"
  by (simp add: dotted_def)

lemma text_keyed:
  assumes P: "CHR ''%'' \<notin> set P" and n: "n = (if P = [] then 0 else Suc (length P))"
  shows "field_fits n rel f \<Longrightarrow> CHR ''%'' \<notin> set rel \<Longrightarrow>
           field_text (Some (under P rel)) f = keyed_field (dotted P) rel f"
    and "fields_fit n rel fs \<Longrightarrow> CHR ''%'' \<notin> set rel \<Longrightarrow>
           fields_text (Some (under P rel)) fs = keyed_fields (dotted P) rel fs"
proof (induction "dotted P" rel f and "dotted P" rel fs rule: keyed_field_keyed_fields.induct)
  case (1 rel cname fmt_spec v)
  let ?k = "dotted P (rel_path rel cname)"
  from 1 have ne: "cname \<noteq> []" and pc: "CHR ''%'' \<notin> set cname"
    and l1: "n + length (rel_path rel cname) \<le> 255"
    and l2: "n + length (rel_path rel cname) + 1 + length fmt_spec \<le> 511"
    by simp_all
  have full: "field_full_name (Some (under P rel)) cname = ?k"
    using full_name_under [OF ne] l1 n by simp
  have lk: "length ?k = n + length (rel_path rel cname)"
    using length_dotted [OF rel_path_nonempty [OF ne]] n by simp
  have fsb: "format_string_buffer ?k fmt_spec = (?k @ ''='') @ fmt_spec"
    using l2 lk by (simp add: format_string_buffer_def)
  have "CHR ''%'' \<notin> set (?k @ ''='')"
    using percent_free_dotted [OF P "1.prems"(2) pc] by simp
  then have "c_format ((?k @ ''='') @ fmt_spec) (Some v) =
               map_option ((@) (?k @ ''='')) (c_format fmt_spec (Some v))"
    by (rule c_format_literal)
  then have X: "c_format ((?k @ ''='') @ fmt_spec) (Some v) =
               map_option (\<lambda>val. ?k @ ''='' @ val) (c_format fmt_spec (Some v))"
    by (cases "c_format fmt_spec (Some v)") simp_all
  show ?case
    unfolding field_text.simps keyed_field.simps full fsb X by (rule refl)
next
  case (2 rel cname sub)
  from 2 have ne: "cname \<noteq> []" and pc: "CHR ''%'' \<notin> set cname"
    and l1: "n + length (rel_path rel cname) \<le> 255"
    and sub: "fields_fit n (rel_path rel cname) sub"
    by simp_all
  have full: "field_full_name (Some (under P rel)) cname = under P (rel_path rel cname)"
    using full_name_under [OF ne] l1 n rel_path_nonempty [OF ne] by (simp add: under_def)
  have "CHR ''%'' \<notin> set (rel_path rel cname)"
    using percent_free_dotted [OF P "2.prems"(2) pc] by simp
  with "2.hyps" sub show ?case by (simp add: full)
next
  case (3 rel)
  then show ?case by simp
next
  case (4 rel f fs)
  then show ?case by (auto split: option.splits)
qed

lemma fits_mono:
  shows "field_fits n rel f \<Longrightarrow> m \<le> n \<Longrightarrow> field_fits m rel f"
    and "fields_fit n rel fs \<Longrightarrow> m \<le> n \<Longrightarrow> fields_fit m rel fs"
  by (induction n rel f and n rel fs rule: field_fits_fields_fit.induct) auto

lemma rendered_with_keys:
  assumes "CHR ''%'' \<notin> set P" and "fields_fit (if P = [] then 0 else Suc (length P)) [] fs"
  shows "rendered (Some P) fs = with_keys (dotted P) fs"
  using text_keyed(2) [OF assms(1) refl assms(2)]
  by (simp add: rendered_def with_keys_def under_def)

lemma dotted_simps: "dotted [] = (\<lambda>k. k)" "P \<noteq> [] \<Longrightarrow> dotted P = (\<lambda>k. P @ ''.'' @ k)"
  by (auto simp: dotted_def fun_eq_iff)

subsection \<open>The previous contents of the buffer do not matter\<close>

lemma agree_refl: "agree b1 b2 b1 b2"
  by (simp add: agree_def)

lemma agree_trans:
  "length b2 = length b1 \<Longrightarrow> agree b1 b2 c1 c2 \<Longrightarrow> agree c1 c2 d1 d2 \<Longrightarrow> agree b1 b2 d1 d2"
  unfolding agree_def by (metis (no_types, lifting))

lemma agree_update: "length b2 = length b1 \<Longrightarrow> agree b1 b2 (b1[i := x]) (b2[i := x])"
proof -
  assume l: "length b2 = length b1"
  have "b1[i := x] ! j = b2[i := x] ! j \<or> (b1[i := x] ! j = b1 ! j \<and> b2[i := x] ! j = b2 ! j)"
    if "j < length b1" for j
    using that l by (cases "j = i") simp_all
  then show ?thesis using l by (simp add: agree_def)
qed

lemma agree_terminate:
  "length b2 = length b1 \<Longrightarrow> agree b1 b2 (terminate n b1 off) (terminate n b2 off)"
  by (simp add: terminate_def agree_update agree_refl)

lemma nth_store:
  "off + length w \<le> length b \<Longrightarrow> i < length b \<Longrightarrow>
   store b off w ! i = (if i < off then b ! i else if i < off + length w then w ! (i - off) else b ! i)"
  by (auto simp: store_def nth_append min_def)

lemma agree_store:
  "length b2 = length b1 \<Longrightarrow> off + length w \<le> length b1 \<Longrightarrow>
   agree b1 b2 (store b1 off w) (store b2 off w)"
  by (simp add: agree_def length_store nth_store)

lemma snprintf_splice_store:
  assumes "remaining n off \<le> length b - off" and "0 < remaining n off"
  shows "take off b @ snprintf_store (drop off b) (remaining n off) out =
         store b off (take (remaining n off - 1) out @ [NUL])"
proof -
  let ?k = "min (length out) (remaining n off - 1)"
  have off: "off < length b" using assms by (simp add: remaining_def split: if_splits)
  have k: "off + ?k + 1 \<le> length b" using assms off by (auto simp: min_def)
  have "snprintf_store (drop off b) (remaining n off) out =
          store (drop off b) 0 (take (remaining n off - 1) out @ [NUL])"
    using assms(2) by (auto simp: snprintf_store_def store_def Let_def min_def)
  then show ?thesis
    using splice_store [of off b 0 "take (remaining n off - 1) out @ [NUL]"] off by simp
qed

lemma agree_snprintf:
  assumes "length b2 = length b1" and "remaining n off \<le> length b1 - off"
  shows "agree b1 b2
           (take off b1 @ snprintf_store (drop off b1) (remaining n off) out)
           (take off b2 @ snprintf_store (drop off b2) (remaining n off) out)"
proof (cases "remaining n off = 0")
  case True
  then show ?thesis by (simp add: snprintf_store_def agree_refl)
next
  case False
  then have pos: "0 < remaining n off" by simp
  have off: "off < length b1" using assms pos by (simp add: remaining_def split: if_splits)
  have fit: "off + length (take (remaining n off - 1) out @ [NUL]) \<le> length b1"
    using assms(2) pos off by (auto simp: min_def)
  show ?thesis
    using agree_store [OF assms(1) fit] assms pos
    by (simp add: snprintf_splice_store)
qed

lemma agree_splice:
  assumes "length b2 = length b1" and "agree (drop off b1) (drop off b2) n1 n2"
  shows "agree b1 b2 (take off b1 @ n1) (take off b2 @ n2)"
proof -
  from assms(2) have l1: "length n1 = length b1 - off" and l2: "length n2 = length b2 - off"
    and ag: "\<And>j. j < length b1 - off \<Longrightarrow>
          n1 ! j = n2 ! j \<or> (n1 ! j = drop off b1 ! j \<and> n2 ! j = drop off b2 ! j)"
    by (simp_all add: agree_def)
  show ?thesis
    unfolding agree_def
  proof (intro conjI allI impI)
    show "length (take off b1 @ n1) = length b1" using l1 by simp
    show "length (take off b2 @ n2) = length b2" using l2 by simp
    fix i assume i: "i < length b1"
    show "(take off b1 @ n1) ! i = (take off b2 @ n2) ! i \<or>
          ((take off b1 @ n1) ! i = b1 ! i \<and> (take off b2 @ n2) ! i = b2 ! i)"
    proof (cases "i < off")
      case True
      then show ?thesis using i assms(1) by (simp add: nth_append)
    next
      case False
      then have j: "i - off < length b1 - off" using i by simp
      show ?thesis
        using ag [OF j] False i assms(1) by (simp add: nth_append min_def)
    qed
  qed
qed

lemma same_outcome_trans:
  "length b2 = length b1 \<Longrightarrow> agree b1 b2 c1 c2 \<Longrightarrow> same_outcome c1 c2 o1 o2 \<Longrightarrow>
   same_outcome b1 b2 o1 o2"
  by (auto simp: same_outcome_def split: option.splits intro: agree_trans)

lemma agree_length: "agree b1 b2 c1 c2 \<Longrightarrow> length c1 = length b1 \<and> length c2 = length b2"
  by (simp add: agree_def)

lemma separator_agree_Next:
  assumes "separator n b1 off first = Next s1 off1" and "length b2 = length b1"
  shows "\<exists>s2. separator n b2 off first = Next s2 off1 \<and> agree b1 b2 s1 s2"
  using assms by (auto simp: separator_def agree_update agree_refl split: if_splits)

lemma separator_agree_Return:
  assumes "separator n b1 off first = Return r" and "length b2 = length b1"
  shows "\<exists>r2. separator n b2 off first = Return r2 \<and> same_outcome b1 b2 r r2"
  using assms
  by (auto simp: separator_def same_outcome_def agree_update agree_refl split: if_splits)

lemma same_outcome_error:
  "length c2 = length c1 \<Longrightarrow>
   same_outcome c1 c2 (Some (- 1, terminate n c1 off)) (Some (- 1, terminate n c2 off))"
  by (simp add: same_outcome_def agree_terminate)

lemma field_logic_agree:
  "length b2 = length b1 \<Longrightarrow> buffer_size \<le> length b1 \<Longrightarrow>
   same_outcome b1 b2 (field_logic buffer_size name_prefix fs b1 offset first)
                      (field_logic buffer_size name_prefix fs b2 offset first)"
proof (induction buffer_size name_prefix fs b1 offset first arbitrary: b2
       rule: field_logic.induct)
  case (1 buffer_size name_prefix buffer offset first)
  then show ?case by (simp add: same_outcome_def agree_terminate)
next
  case (2 buffer_size name_prefix cname fmt_spec v fs b1 offset first)
  note len = "2.prems"(1) and cap = "2.prems"(2)
  let ?fmt = "format_string_buffer (field_full_name name_prefix cname) fmt_spec"
  show ?case
  proof (cases "separator buffer_size b1 offset first")
    case (Return r)
    from separator_agree_Return [OF Return len] show ?thesis
      using Return by auto
  next
    case (Next s1 off1)
    from separator_agree_Next [OF Next len] obtain s2 where
      Next2: "separator buffer_size b2 offset first = Next s2 off1" and ag: "agree b1 b2 s1 s2"
      by blast
    have ls: "length s1 = length b1" "length s2 = length b1"
      using agree_length [OF ag] len by simp_all
    show ?thesis
    proof (cases "c_format ?fmt (Some v)")
      case None
      then show ?thesis by (simp add: Next Next2 same_outcome_def)
    next
      case (Some out)
      define p1 where
        "p1 = take off1 s1 @ snprintf_store (drop off1 s1) (remaining buffer_size off1) out"
      define p2 where
        "p2 = take off1 s2 @ snprintf_store (drop off1 s2) (remaining buffer_size off1) out"
      have "agree s1 s2 p1 p2"
        unfolding p1_def p2_def using ls cap
        by (intro agree_snprintf) (simp_all add: remaining_le)
      then have agp: "agree b1 b2 p1 p2"
        using agree_trans [OF len ag] by blast
      have lp: "length p1 = length b1" "length p2 = length p1"
        using agree_length [OF agp] len by simp_all
      show ?thesis
      proof (cases "snprintf_ret out < 0 \<or> remaining buffer_size off1 \<le> nat (snprintf_ret out)")
        case True
        have "same_outcome b1 b2 (Some (- 1, terminate buffer_size p1 off1))
                (Some (- 1, terminate buffer_size p2 off1))"
          using same_outcome_trans [OF len agp same_outcome_error] lp by simp
        then show ?thesis
          using True by (simp add: Next Next2 Some Let_def p1_def p2_def)
      next
        case False
        show ?thesis
        proof (cases "INT_MAX < int off1 + snprintf_ret out")
          case True
          then show ?thesis
            using False by (simp add: Next Next2 Some Let_def same_outcome_def)
        next
          case nomax: False
          have "same_outcome p1 p2
                  (field_logic buffer_size name_prefix fs p1 (off1 + nat (snprintf_ret out)) False)
                  (field_logic buffer_size name_prefix fs p2 (off1 + nat (snprintf_ret out)) False)"
            using "2.IH" [OF Next Some p1_def refl False nomax lp(2)] lp(1) cap by simp
          then have "same_outcome b1 b2
                  (field_logic buffer_size name_prefix fs p1 (off1 + nat (snprintf_ret out)) False)
                  (field_logic buffer_size name_prefix fs p2 (off1 + nat (snprintf_ret out)) False)"
            by (rule same_outcome_trans [OF len agp])
          then show ?thesis
            using False nomax by (simp add: Next Next2 Some Let_def p1_def p2_def)
        qed
      qed
    qed
  qed
next
  case (3 buffer_size name_prefix cname sub fs b1 offset first)
  note len = "3.prems"(1) and cap = "3.prems"(2)
  let ?full = "Some (field_full_name name_prefix cname)"
  show ?case
  proof (cases "separator buffer_size b1 offset first")
    case (Return r)
    from separator_agree_Return [OF Return len] show ?thesis
      using Return by auto
  next
    case (Next s1 off1)
    from separator_agree_Next [OF Next len] obtain s2 where
      Next2: "separator buffer_size b2 offset first = Next s2 off1" and ag: "agree b1 b2 s1 s2"
      by blast
    have ls: "length s1 = length b1" "length s2 = length s1"
      using agree_length [OF ag] len by simp_all
    have nested: "same_outcome (drop off1 s1) (drop off1 s2)
        (field_logic (remaining buffer_size off1) ?full sub (drop off1 s1) 0 True)
        (field_logic (remaining buffer_size off1) ?full sub (drop off1 s2) 0 True)"
      using "3.IH"(1) [OF Next, of "drop off1 s2"] ls cap remaining_le [of buffer_size s1 off1]
      by simp
    show ?thesis
    proof (cases "field_logic (remaining buffer_size off1) ?full sub (drop off1 s1) 0 True")
      case None
      then show ?thesis
        using nested by (simp add: Next Next2 same_outcome_def)
    next
      case (Some a)
      obtain res n1 where a: "a = (res, n1)" by (cases a)
      from nested Some a obtain n2 where
        n2: "field_logic (remaining buffer_size off1) ?full sub (drop off1 s2) 0 True = Some (res, n2)"
        and agn: "agree (drop off1 s1) (drop off1 s2) n1 n2"
        by (auto simp: same_outcome_def)
      note n1 = Some [unfolded a]
      define p1 where "p1 = take off1 s1 @ n1"
      define p2 where "p2 = take off1 s2 @ n2"
      have "agree s1 s2 p1 p2"
        unfolding p1_def p2_def using agree_splice [OF ls(2) agn] .
      then have agp: "agree b1 b2 p1 p2"
        using agree_trans [OF len ag] by blast
      have lp: "length p1 = length b1" "length p2 = length p1"
        using agree_length [OF agp] len by simp_all
      show ?thesis
      proof (cases "res < 0")
        case True
        have "same_outcome b1 b2 (Some (- 1, terminate buffer_size p1 off1))
                (Some (- 1, terminate buffer_size p2 off1))"
          using same_outcome_trans [OF len agp same_outcome_error] lp by simp
        then show ?thesis
          using True by (simp add: Next Next2 n1 n2 Let_def p1_def p2_def)
      next
        case False
        show ?thesis
        proof (cases "INT_MAX < int off1 + res")
          case True
          then show ?thesis
            using False by (simp add: Next Next2 n1 n2 Let_def same_outcome_def)
        next
          case nomax: False
          have "same_outcome p1 p2
                  (field_logic buffer_size name_prefix fs p1 (off1 + nat res) False)
                  (field_logic buffer_size name_prefix fs p2 (off1 + nat res) False)"
            using "3.IH"(2) [OF Next n1 refl p1_def False nomax lp(2)] lp(1) cap by simp
          then have "same_outcome b1 b2
                  (field_logic buffer_size name_prefix fs p1 (off1 + nat res) False)
                  (field_logic buffer_size name_prefix fs p2 (off1 + nat res) False)"
            by (rule same_outcome_trans [OF len agp])
          then show ?thesis
            using False nomax by (simp add: Next Next2 n1 n2 Let_def p1_def p2_def)
        qed
      qed
    qed
  qed
qed

lemma to_str_agree:
  assumes "length b2 = length b1" and "buffer_size \<le> length b1"
  shows "same_outcome b1 b2 (to_str b1 buffer_size s name_prefix)
                            (to_str b2 buffer_size s name_prefix)"
proof (cases s)
  case None
  then show ?thesis
    using assms by (simp add: to_str_def same_outcome_def agree_update)
next
  case (Some fields)
  then show ?thesis
    using field_logic_agree [OF assms] by (simp add: to_str_def)
qed

lemma to_str_undefined_agree:
  assumes "length b2 = length b1" and "buffer_size \<le> length b1"
    and "to_str b1 buffer_size s name_prefix = None"
  shows "to_str b2 buffer_size s name_prefix = None"
  using to_str_agree [OF assms(1,2), of s name_prefix] assms(3)
  by (simp add: same_outcome_def)

subsection \<open>What a successful call has rendered\<close>

text \<open>
  A call that returns a non-negative integer has formatted every field, and the integer is
  the length of the text of the record.
\<close>

lemma separator_Next_offset:
  "separator n b off first = Next s off1 \<Longrightarrow>
     off1 = off + (if first then 0 else 1) \<and> (int off \<le> INT_MAX \<longrightarrow> int off1 \<le> INT_MAX)"
  by (auto simp: separator_def split: if_splits)

lemma separator_Return_negative:
  "separator n b off first = Return (Some (r, c)) \<Longrightarrow> r < 0"
  by (auto dest: separator_Return)

lemma snprintf_ret_nonneg: "\<not> snprintf_ret out < 0 \<Longrightarrow> nat (snprintf_ret out) = length out"
  by (simp add: snprintf_ret_def split: if_splits)

lemma field_logic_success:
  "field_logic buffer_size name_prefix fs buffer offset first = Some (r, c) \<Longrightarrow> 0 \<le> r \<Longrightarrow>
   int offset \<le> INT_MAX \<Longrightarrow>
   \<exists>ts. fields_text name_prefix fs = Some ts \<and> r = int (offset + length (pending first ts)) \<and>
        r \<le> INT_MAX"
proof (induction buffer_size name_prefix fs buffer offset first arbitrary: r c
       rule: field_logic.induct)
  case (1 buffer_size name_prefix buffer offset first)
  then show ?case by (auto simp: pending_def)
next
  case (2 buffer_size name_prefix cname fmt_spec v fs buffer offset first)
  let ?fmt = "format_string_buffer (field_full_name name_prefix cname) fmt_spec"
  show ?case
  proof (cases "separator buffer_size buffer offset first")
    case (Return x)
    with "2.prems"(1,2) show ?thesis
      using separator_Return_negative [of buffer_size buffer offset first r c] by auto
  next
    case (Next s1 off1)
    note o1 = separator_Next_offset [OF Next]
    from "2.prems"(1) Next obtain out where out: "c_format ?fmt (Some v) = Some out"
      by (auto split: option.splits)
    define p1 where
      "p1 = take off1 s1 @ snprintf_store (drop off1 s1) (remaining buffer_size off1) out"
    from "2.prems"(1,2) Next out have
      ok: "\<not> (snprintf_ret out < 0 \<or> remaining buffer_size off1 \<le> nat (snprintf_ret out))"
      and nomax: "\<not> INT_MAX < int off1 + snprintf_ret out"
      and rec: "field_logic buffer_size name_prefix fs p1 (off1 + nat (snprintf_ret out)) False = Some (r, c)"
      by (auto simp: Let_def p1_def [symmetric] split: if_splits)
    have ret: "nat (snprintf_ret out) = length out" "snprintf_ret out = int (length out)"
      using ok snprintf_ret_nonneg [of out] by auto
    have "int (off1 + nat (snprintf_ret out)) \<le> INT_MAX"
      using nomax ret by simp
    from "2.IH" [OF Next out p1_def refl ok nomax rec "2.prems"(2) this]
    obtain rest where rest: "fields_text name_prefix fs = Some rest"
      and r: "r = int (off1 + nat (snprintf_ret out) + length (pending False rest))"
      and rmax: "r \<le> INT_MAX"
      by blast
    have "fields_text name_prefix (PRIMITIVE cname fmt_spec v # fs) = Some (out # rest)"
      using out rest by simp
    moreover have "r = int (offset + length (pending first (out # rest)))"
      using r o1 ret by (simp add: pending_Cons)
    ultimately show ?thesis using rmax by blast
  qed
next
  case (3 buffer_size name_prefix cname sub fs buffer offset first)
  let ?full = "Some (field_full_name name_prefix cname)"
  show ?case
  proof (cases "separator buffer_size buffer offset first")
    case (Return x)
    with "3.prems"(1,2) show ?thesis
      using separator_Return_negative [of buffer_size buffer offset first r c] by auto
  next
    case (Next s1 off1)
    note o1 = separator_Next_offset [OF Next]
    from "3.prems"(1) Next obtain res n1 where
      nested: "field_logic (remaining buffer_size off1) ?full sub (drop off1 s1) 0 True = Some (res, n1)"
      by (auto split: option.splits)
    define p1 where "p1 = take off1 s1 @ n1"
    from "3.prems"(1,2) Next nested have
      ok: "\<not> res < 0" and nomax: "\<not> INT_MAX < int off1 + res"
      and rec: "field_logic buffer_size name_prefix fs p1 (off1 + nat res) False = Some (r, c)"
      by (auto simp: Let_def p1_def [symmetric] split: if_splits)
    have "0 \<le> res" using ok by simp
    from "3.IH"(1) [OF Next nested this]
    obtain subts where subts: "fields_text ?full sub = Some subts"
      and res: "res = int (length (join_sp subts))"
      by (auto simp: INT_MAX_def pending_True)
    have "int (off1 + nat res) \<le> INT_MAX"
      using nomax ok by simp
    from "3.IH"(2) [OF Next nested refl p1_def ok nomax rec "3.prems"(2) this]
    obtain rest where rest: "fields_text name_prefix fs = Some rest"
      and r: "r = int (off1 + nat res + length (pending False rest))"
      and rmax: "r \<le> INT_MAX"
      by blast
    have "fields_text name_prefix (STRUCT cname sub # fs) = Some (join_sp subts # rest)"
      using subts rest by simp
    moreover have "r = int (offset + length (pending first (join_sp subts # rest)))"
      using r o1 res by (simp add: pending_Cons)
    ultimately show ?thesis using rmax by blast
  qed
qed

lemma to_str_success:
  assumes "to_str buffer buffer_size (Some fs) name_prefix = Some (r, c)" and "0 \<le> r"
  shows "\<exists>t. rendered name_prefix fs = Some t \<and> r = int (length t) \<and> r \<le> INT_MAX"
  using field_logic_success [of buffer_size name_prefix fs buffer 0 True r c] assms
  by (auto simp: to_str_def rendered_def pending_True INT_MAX_def)

subsection \<open>The Line scenario\<close>

lemmas eval_simps = field_full_name_def format_string_buffer_def dec_int_def dec_nat.simps digit_def

lemma rendered_l1:
  "rendered (Some ''myline'') l1 =
     Some ''myline.start.x=10 myline.start.y=20 myline.end.x=30 myline.end.y=40 myline.label=MainLine''"
  by (simp add: rendered_def l1_def Line_def Point_def eval_simps)

text \<open>
  Claim C6. The record \<open>Line{start:Point, end:Point, label:string}\<close> with the value
  \<open>{{10,20},{30,40},"MainLine"}\<close> and the prefix \<open>myline\<close>: with any capacity of at
  least 90 bytes the call returns 89 and the buffer holds the expected text followed by
  the terminator.
\<close>

theorem Line_scenario:
  assumes "90 \<le> buffer_size" and "buffer_size \<le> length buffer"
  shows "to_str buffer buffer_size (Some l1) (Some ''myline'') =
     Some (89, ''myline.start.x=10 myline.start.y=20 myline.end.x=30 myline.end.y=40 myline.label=MainLine''
               @ NUL # drop 90 buffer)"
proof -
  let ?t = "''myline.start.x=10 myline.start.y=20 myline.end.x=30 myline.end.y=40 myline.label=MainLine''"
  have L: "length ?t = 89" by simp
  have "to_str buffer buffer_size (Some l1) (Some ''myline'') =
          Some (int (length ?t), ?t @ NUL # drop (Suc (length ?t)) buffer)"
    by (rule to_str_fits [OF rendered_l1]) (use assms in \<open>simp_all add: INT_MAX_def\<close>)
  then show ?thesis unfolding L by simp
qed

theorem Line_scenario_witness:
  "to_str (replicate 1024 CHR ''#'') 1024 (Some l1) (Some ''myline'') =
     Some (89, ''myline.start.x=10 myline.start.y=20 myline.end.x=30 myline.end.y=40 myline.label=MainLine''
               @ NUL # replicate 934 CHR ''#'')"
  using Line_scenario [of 1024 "replicate 1024 CHR ''#''"] by simp

subsection \<open>The null record\<close>

text \<open>
  Claim C3. With a capacity of at least 1 and any prefix, a null record reference makes the
  call return 0 and store the terminator in \<open>buffer[0]\<close>, so the buffer holds the empty
  string.
\<close>

theorem null_record:
  assumes "1 \<le> buffer_size" and "buffer_size \<le> length buffer"
  shows "to_str buffer buffer_size None name_prefix = Some (0, NUL # tl buffer)"
proof -
  from assms obtain c rest where b: "buffer = c # rest" by (cases buffer) auto
  then show ?thesis using assms by (simp add: to_str_def)
qed

theorem null_record_witness:
  "to_str (replicate 16 CHR ''#'') 16 None (Some ''p'') = Some (0, NUL # replicate 15 CHR ''#'')"
proof -
  have "tl (replicate 16 CHR ''#'') = replicate 15 CHR ''#''"
    by (simp add: numeral_eq_Suc)
  then show ?thesis
    using null_record [of 16 "replicate 16 CHR ''#''" "Some ''p''"] by simp
qed

subsection \<open>Termination of the buffer\<close>


text \<open>Whatever a call returns, the buffer it leaves is terminated below the capacity.\<close>

lemma returned_buffer_terminated:
  assumes "to_str buffer buffer_size s name_prefix = Some (r, buffer')"
    and "1 \<le> buffer_size" and "buffer_size \<le> length buffer"
  shows "\<exists>i<buffer_size. buffer' ! i = NUL"
proof (cases s)
  case None
  with assms have "buffer' = buffer[0 := NUL]" "0 < length buffer"
    by (auto simp: to_str_def)
  then have "buffer' ! 0 = NUL" by simp
  then show ?thesis using assms(2) by (intro exI [of _ 0]) simp
next
  case (Some fields)
  with assms show ?thesis
    by (auto simp: to_str_def intro: field_logic_terminated)
qed





text \<open>
  In particular a call whose text is longer than the capacity returns the error value and
  leaves the buffer terminated.
\<close>

lemma overlong_render_fails:
  assumes "rendered name_prefix fs = Some t" and "buffer_size < length t"
    and "1 \<le> buffer_size" and "buffer_size \<le> length buffer" and "int buffer_size \<le> INT_MAX"
  shows "\<exists>c. to_str buffer buffer_size (Some fs) name_prefix = Some (- 1, c) \<and>
             (\<exists>i<buffer_size. c ! i = NUL)"
proof -
  from assms(1) obtain ts where ts: "fields_text name_prefix fs = Some ts" and t: "t = join_sp ts"
    by (auto simp: rendered_def)
  from field_logic_total [OF ts _ assms(5), of 0 buffer True]
  obtain r c where res: "to_str buffer buffer_size (Some fs) name_prefix = Some (r, c)"
    and lo: "- 1 \<le> r" and hi: "r \<le> int buffer_size"
    by (auto simp: to_str_def)
  have "r < 0"
  proof (rule ccontr)
    assume "\<not> r < 0"
    then have "0 \<le> r" by simp
    from to_str_success [OF res this] assms(1) have "r = int (length t)" by auto
    with hi assms(2) show False by simp
  qed
  then have "r = - 1" using lo by simp
  with res returned_buffer_terminated [OF res assms(3,4)] show ?thesis by blast
qed

subsection \<open>The sizing call\<close>

text \<open>
  Claim C1 as stated fails: for the Point of the test suite the call with an empty
  destination and capacity 0 returns the error value, while a call with room stores 25
  bytes and returns 25.
\<close>

theorem sizing_pass_counterexample:
  "to_str [] 0 (Some (Point 10 20)) (Some ''mypoint'') = Some (- 1, []) \<and>
   to_str (replicate 64 CHR ''#'') 64 (Some (Point 10 20)) (Some ''mypoint'') =
     Some (25, ''mypoint.x=10 mypoint.y=20'' @ NUL # replicate 38 CHR ''#'')"
  by code_simp

lemma capacity_zero_text:
  assumes "rendered name_prefix fs = Some t"
  shows "to_str buffer 0 (Some fs) name_prefix = Some (if t = [] then 0 else - 1, buffer)"
proof -
  from assms obtain ts where ts: "fields_text name_prefix fs = Some ts" and t: "t = join_sp ts"
    by (auto simp: rendered_def)
  show ?thesis
    using field_logic_zero [OF ts refl refl, of buffer True]
    by (simp add: to_str_def pending_True t)
qed

lemma Point_64:
  "to_str (replicate 64 CHR ''#'') 64 (Some (Point 10 20)) (Some ''mypoint'') =
     Some (25, ''mypoint.x=10 mypoint.y=20'' @ NUL # replicate 38 CHR ''#'')"
  by code_simp

text \<open>
  Claim C1, amended. Whenever a call on a record, with whatever buffer and capacity,
  returns a byte count \<open>N\<close>, the call on the same record and prefix with capacity 0
  stores nothing, and it returns 0 if \<open>N = 0\<close> and the error value \<open>-1\<close> if \<open>N\<close> is
  positive: it reports the byte count only of a rendering that is empty.
\<close>

theorem capacity_zero:
  assumes "to_str buffer' buffer_size (Some fs) name_prefix = Some (N, c)" and "0 \<le> N"
  shows "to_str buffer 0 (Some fs) name_prefix = Some (if N = 0 then 0 else - 1, buffer)"
proof -
  from to_str_success [OF assms] obtain t where
    t: "rendered name_prefix fs = Some t" and N: "N = int (length t)"
    by blast
  show ?thesis
    using capacity_zero_text [OF t, of buffer] N by simp
qed

theorem capacity_zero_witness:
  "to_str [] 0 (Some (Point 10 20)) (Some ''mypoint'') = Some (- 1, [])"
  using capacity_zero [OF Point_64, of "[]"] by simp

subsection \<open>The prefix law\<close>

text \<open>
  Claim C4 as stated fails for a long prefix: the field path is built in a 256-byte buffer,
  so with a prefix of 255 bytes the dot and the field name are cut off, and both fields of
  a Point are printed under the bare prefix, where the law asks for the prefix, a dot and
  the field name.
\<close>

theorem prefix_law_counterexample:
  "to_str (replicate 600 CHR ''#'') 600 (Some (Point 10 20)) (Some (replicate 255 CHR ''a'')) =
     Some (517, replicate 255 CHR ''a'' @ ''=10 '' @ replicate 255 CHR ''a'' @ ''=20''
                @ NUL # replicate 82 CHR ''#'') \<and>
   to_str (replicate 600 CHR ''#'') 600 (Some (Point 10 20)) (Some []) =
     Some (9, ''x=10 y=20'' @ NUL # replicate 590 CHR ''#'') \<and>
   with_keys (\<lambda>k. replicate 255 CHR ''a'' @ ''.'' @ k) (Point 10 20) =
     Some (replicate 255 CHR ''a'' @ ''.x=10 '' @ replicate 255 CHR ''a'' @ ''.y=20'')"
  by code_simp

lemma l1_fits: "fields_fit (Suc (length ''myline'')) [] l1"
  by code_simp

lemma l1_prefixed:
  "with_keys (\<lambda>k. ''myline'' @ ''.'' @ k) l1 =
     Some ''myline.start.x=10 myline.start.y=20 myline.end.x=30 myline.end.y=40 myline.label=MainLine''"
  by code_simp

lemma l1_plain:
  "with_keys (\<lambda>k. k) l1 = Some ''start.x=10 start.y=20 end.x=30 end.y=40 label=MainLine''"
  by code_simp

text \<open>
  Claim C4, amended. For a non-empty prefix \<open>P\<close> without \<open>%\<close>, a record whose field
  names are not empty and have no \<open>%\<close>, whose dotted paths under \<open>P\<close> are at most
  255 bytes and whose format strings fit 511 bytes, and a capacity that holds both texts:
  the call with prefix \<open>P\<close> stores the rendering with the empty prefix in which every
  key is prefixed by \<open>P\<close> and a dot, and the call with the empty prefix stores the
  rendering whose keys are the bare field paths.
\<close>

theorem prefix_law:
  assumes "P \<noteq> []" and "CHR ''%'' \<notin> set P" and "fields_fit (Suc (length P)) [] fs"
    and "with_keys (\<lambda>k. P @ ''.'' @ k) fs = Some t" and "with_keys (\<lambda>k. k) fs = Some u"
    and "length t < buffer_size" and "length u < buffer_size"
    and "buffer_size \<le> length buffer"
    and "int (length t) \<le> INT_MAX" and "int (length u) \<le> INT_MAX"
  shows "to_str buffer buffer_size (Some fs) (Some P) =
           Some (int (length t), t @ NUL # drop (Suc (length t)) buffer) \<and>
         to_str buffer buffer_size (Some fs) (Some []) =
           Some (int (length u), u @ NUL # drop (Suc (length u)) buffer)"
proof
  have "rendered (Some P) fs = Some t"
    using rendered_with_keys [of P fs] assms(1-4) by (simp add: dotted_simps)
  then show "to_str buffer buffer_size (Some fs) (Some P) =
           Some (int (length t), t @ NUL # drop (Suc (length t)) buffer)"
    using assms(6,8,9) by (rule to_str_fits)
  have "fields_fit 0 [] fs"
    using fits_mono(2) [OF assms(3)] by simp
  then have "rendered (Some []) fs = Some u"
    using rendered_with_keys [of "[]" fs] assms(5) by (simp add: dotted_simps)
  then show "to_str buffer buffer_size (Some fs) (Some []) =
           Some (int (length u), u @ NUL # drop (Suc (length u)) buffer)"
    using assms(7,8,10) by (rule to_str_fits)
qed

theorem prefix_law_witness:
  "to_str (replicate 128 CHR ''#'') 128 (Some l1) (Some ''myline'') =
     Some (89, ''myline.start.x=10 myline.start.y=20 myline.end.x=30 myline.end.y=40 myline.label=MainLine''
               @ NUL # replicate 38 CHR ''#'') \<and>
   to_str (replicate 128 CHR ''#'') 128 (Some l1) (Some []) =
     Some (54, ''start.x=10 start.y=20 end.x=30 end.y=40 label=MainLine'' @ NUL # replicate 73 CHR ''#'')"
proof -
  let ?t = "''myline.start.x=10 myline.start.y=20 myline.end.x=30 myline.end.y=40 myline.label=MainLine''"
  let ?u = "''start.x=10 start.y=20 end.x=30 end.y=40 label=MainLine''"
  have L: "length ?t = 89" "length ?u = 54" by simp_all
  have "to_str (replicate 128 CHR ''#'') 128 (Some l1) (Some ''myline'') =
           Some (int (length ?t), ?t @ NUL # drop (Suc (length ?t)) (replicate 128 CHR ''#'')) \<and>
        to_str (replicate 128 CHR ''#'') 128 (Some l1) (Some []) =
           Some (int (length ?u), ?u @ NUL # drop (Suc (length ?u)) (replicate 128 CHR ''#''))"
    by (rule prefix_law [OF _ _ l1_fits l1_prefixed l1_plain]) (simp_all add: INT_MAX_def)
  then show ?thesis unfolding L by simp
qed

subsection \<open>Capacity monotonicity\<close>

text \<open>
  Claim C5 on a record that ends in a nested record without fields: with capacity 4 the
  call returns 4, but the final termination overwrites the separator it has just stored,
  so the buffer holds \<open>x=1\<close> and the terminator; with capacity 5 it returns 4 as well
  and the first four bytes are \<open>x=1\<close> and the separator.
\<close>

theorem trailing_empty_record:
  "to_str ''####'' 4 (Some (Tagged 1)) (Some []) = Some (4, ''x=1'' @ [NUL]) \<and>
   to_str ''#####'' 5 (Some (Tagged 1)) (Some []) = Some (4, ''x=1 '' @ [NUL])"
  by code_simp

text \<open>
  Apart from that case the law holds: a call that returns \<open>N\<close> below its capacity has
  stored the whole text, and so does every call with a capacity of at least \<open>N + 1\<close>.
\<close>

lemma monotone_below_capacity:
  assumes "to_str b1 C1 (Some fs) name_prefix = Some (N, c1)" and "0 \<le> N" and "N < int C1"
    and "C1 \<le> length b1" and "N + 1 \<le> int C2" and "C2 \<le> length b2"
  shows "\<exists>c2. to_str b2 C2 (Some fs) name_prefix = Some (N, c2) \<and>
              take (nat N) c2 = take (nat N) c1"
proof -
  from to_str_success [OF assms(1,2)] obtain t where
    t: "rendered name_prefix fs = Some t" and N: "N = int (length t)" and m: "N \<le> INT_MAX"
    by blast
  have "to_str b1 C1 (Some fs) name_prefix =
          Some (int (length t), t @ NUL # drop (Suc (length t)) b1)"
    using assms(3,4) m N by (intro to_str_fits [OF t]) simp_all
  with assms(1) have c1: "c1 = t @ NUL # drop (Suc (length t)) b1" by simp
  have "to_str b2 C2 (Some fs) name_prefix =
          Some (int (length t), t @ NUL # drop (Suc (length t)) b2)"
    using assms(5,6) m N by (intro to_str_fits [OF t]) simp_all
  then show ?thesis using c1 N by simp
qed

subsection \<open>Determinism\<close>

lemma Point_32:
  "to_str (replicate 32 CHR ''#'') 32 (Some (Point 10 20)) (Some ''mypoint'') =
     Some (25, ''mypoint.x=10 mypoint.y=20'' @ NUL # replicate 6 CHR ''#'')"
  by code_simp

text \<open>
  Claim C9. A call is a function of its inputs, so two calls with identical inputs return
  the same result and leave the same bytes in the buffer. More than that: the integer
  returned and every byte stored depend on the record, the prefix and the capacity only.
  Of two calls that differ in what the buffer held before, if one returns \<open>r\<close> then so
  does the other, and at every index the two buffers afterwards hold the same byte or both
  still hold the byte they held before the call.
\<close>

theorem render_deterministic:
  assumes "length b2 = length b1" and "buffer_size \<le> length b1"
    and "to_str b1 buffer_size s name_prefix = Some (r, c1)"
  shows "\<exists>c2. to_str b2 buffer_size s name_prefix = Some (r, c2) \<and>
              length c1 = length b1 \<and> length c2 = length b1 \<and>
              (\<forall>i<length b1. c1 ! i = c2 ! i \<or> (c1 ! i = b1 ! i \<and> c2 ! i = b2 ! i)) \<and>
              (b2 = b1 \<longrightarrow> c2 = c1)"
proof -
  from to_str_agree [OF assms(1,2), of s name_prefix] assms(3) obtain c2 where
    c2: "to_str b2 buffer_size s name_prefix = Some (r, c2)" and ag: "agree b1 b2 c1 c2"
    by (auto simp: same_outcome_def)
  have "b2 = b1 \<longrightarrow> c2 = c1" using c2 assms(3) by auto
  then show ?thesis
    using c2 ag assms(1) by (auto simp: agree_def)
qed

theorem render_deterministic_witness:
  "\<exists>c2. to_str (replicate 32 CHR ''@'') 32 (Some (Point 10 20)) (Some ''mypoint'') = Some (25, c2)"
  using render_deterministic [OF _ _ Point_32, of "replicate 32 CHR ''@''"] by auto

section \<open>Properties of the default formatter\<close>

subsection \<open>The two loops\<close>

lemma length_esc: "length (esc c) = (if c = CHR 0x22 \<or> c = CHR 0x5C then 2 else 1)"
  by (simp add: esc_def)

lemma length_escaped: "length (escaped v) = length v + escapes v"
  by (induction v) (simp_all add: escaped_def escapes_def length_esc)

lemma value_step:
  "(if c = CHR 0x22 then strcat cap buffer [CHR 0x5C, CHR 0x22]
    else if c = CHR 0x5C then strcat cap buffer [CHR 0x5C, CHR 0x5C]
    else strcat cap buffer [c]) = strcat cap buffer (esc c)"
  by (simp add: esc_def)

lemma value_loop_eq:
  "length b < cap \<Longrightarrow>
   value_loop cap b v =
     (if length b + length (escaped v) < cap then Some (b @ escaped v) else None)"
proof (induction v arbitrary: b)
  case Nil
  then show ?case by (simp add: escaped_def)
next
  case (Cons c v)
  show ?case
  proof (cases "length b + length (esc c) < cap")
    case True
    then have "value_loop cap (b @ esc c) v =
        (if length (b @ esc c) + length (escaped v) < cap then Some ((b @ esc c) @ escaped v) else None)"
      by (intro Cons.IH) simp
    with True show ?thesis
      by (simp add: value_step strcat_def escaped_def add.assoc)
  next
    case False
    then show ?thesis
      by (simp add: value_step strcat_def escaped_def)
  qed
qed

lemma strcat_bind:
  "(case strcat cap b s of None \<Rightarrow> None | Some b' \<Rightarrow> f b') =
     (if length b + length s < cap then f (b @ s) else None)"
  by (simp add: strcat_def)

lemma value_loop_bind:
  "length b < cap \<Longrightarrow>
   (case value_loop cap b v of None \<Rightarrow> None | Some b' \<Rightarrow> f b') =
     (if length b + length (escaped v) < cap then f (b @ escaped v) else None)"
  by (simp add: value_loop_eq)

lemma non_null_Cons:
  "non_null (p # ps) =
     (case (key p, value p) of (Some k, Some v) \<Rightarrow> (k, v) # non_null ps | _ \<Rightarrow> non_null ps)"
  by (simp add: non_null_def split: option.splits)

lemma length_add_token: "length acc \<le> length (add_token acc kv)"
  by (simp add: add_token_def)

lemma length_foldl_add_token: "length acc \<le> length (foldl add_token acc kvs)"
proof (induction kvs arbitrary: acc)
  case Nil
  show ?case by simp
next
  case (Cons kv kvs)
  have "length acc \<le> length (add_token acc kv)" by (rule length_add_token)
  also have "\<dots> \<le> length (foldl add_token (add_token acc kv) kvs)" by (rule Cons.IH)
  finally show ?case by simp
qed

lemma pair_step:
  assumes "length b < cap"
  shows "(case (if length b > 0 \<and> last b \<noteq> CHR '' '' then strcat cap b '' '' else Some b) of
             None \<Rightarrow> None
           | Some b1 \<Rightarrow>
          (case strcat cap b1 k of
             None \<Rightarrow> None
           | Some b2 \<Rightarrow>
          (case strcat cap b2 [CHR ''='', CHR 0x22] of
             None \<Rightarrow> None
           | Some b3 \<Rightarrow>
          (case value_loop cap b3 v of
             None \<Rightarrow> None
           | Some b4 \<Rightarrow>
          (case strcat cap b4 [CHR 0x22] of
             None \<Rightarrow> None
           | Some b5 \<Rightarrow> f b5))))) =
         (if length (add_token b (k, v)) < cap then f (add_token b (k, v)) else None)"
proof -
  define sp where "sp = (if b \<noteq> [] \<and> last b \<noteq> CHR '' '' then '' '' else [])"
  have first: "(if length b > 0 \<and> last b \<noteq> CHR '' '' then strcat cap b '' '' else Some b) =
        (if length (b @ sp) < cap then Some (b @ sp) else None)"
    using assms by (simp add: sp_def strcat_def)
  have tok: "add_token b (k, v) = b @ sp @ k @ [CHR ''='', CHR 0x22] @ escaped v @ [CHR 0x22]"
    by (simp add: add_token_def sp_def token_def)
  show ?thesis
  proof (cases "length (add_token b (k, v)) < cap")
    case True
    then have l: "length b + length sp + length k + 2 + length (escaped v) + 1 < cap"
      by (simp add: tok)
    have v: "(case value_loop cap (((b @ sp) @ k) @ [CHR ''='', CHR 0x22]) v of None \<Rightarrow> None
              | Some b4 \<Rightarrow> (if length b4 + length [CHR 0x22] < cap then f (b4 @ [CHR 0x22]) else None)) =
             f (add_token b (k, v))"
      using l by (subst value_loop_bind) (simp_all add: strcat_bind tok)
    have s: "length (b @ sp) < cap" "length (b @ sp) + length k < cap"
      "length ((b @ sp) @ k) + length [CHR ''='', CHR 0x22] < cap"
      using l by simp_all
    show ?thesis
      unfolding first strcat_bind using s True v by (simp only: if_True option.case)
  next
    case False
    then have l: "\<not> length b + length sp + length k + 2 + length (escaped v) + 1 < cap"
      by (simp add: tok)
    show ?thesis
    proof (cases "length b + length sp + length k + 2 < cap")
      case fit: True
      have v: "(case value_loop cap (((b @ sp) @ k) @ [CHR ''='', CHR 0x22]) v of None \<Rightarrow> None
              | Some b4 \<Rightarrow> (if length b4 + length [CHR 0x22] < cap then f (b4 @ [CHR 0x22]) else None)) =
             None"
        using l fit by (subst value_loop_bind) (simp_all add: strcat_bind)
      have s: "length (b @ sp) < cap" "length (b @ sp) + length k < cap"
        "length ((b @ sp) @ k) + length [CHR ''='', CHR 0x22] < cap"
        using fit by simp_all
      show ?thesis
        unfolding first strcat_bind using s False v by (simp only: if_True if_False option.case)
    next
      case nofit: False
      show ?thesis
        unfolding first strcat_bind using False nofit by (auto split: option.splits)
    qed
  qed
qed

lemma pairs_loop_eq:
  "length b < cap \<Longrightarrow>
   pairs_loop cap b ps =
     (if length (foldl add_token b (non_null ps)) < cap
      then Some (foldl add_token b (non_null ps)) else None)"
proof (induction ps arbitrary: b)
  case Nil
  then show ?case by (simp add: non_null_def)
next
  case (Cons p ps)
  show ?case
  proof (cases "key p")
    case None
    then show ?thesis using Cons by (simp add: non_null_Cons)
  next
    case k: (Some k)
    show ?thesis
    proof (cases "value p")
      case None
      then show ?thesis using Cons k by (simp add: non_null_Cons)
    next
      case v: (Some v)
      have step: "pairs_loop cap b (p # ps) =
          (if length (add_token b (k, v)) < cap then pairs_loop cap (add_token b (k, v)) ps else None)"
        using pair_step [OF Cons.prems, where k = k and v = v and f = "\<lambda>b5. pairs_loop cap b5 ps"]
        by (simp add: k v)
      show ?thesis
      proof (cases "length (add_token b (k, v)) < cap")
        case True
        then show ?thesis
          using Cons.IH [OF True] by (subst step) (simp add: non_null_Cons k v)
      next
        case False
        then have "\<not> length (foldl add_token (add_token b (k, v)) (non_null ps)) < cap"
          using length_foldl_add_token [of "add_token b (k, v)" "non_null ps"] by simp
        with False show ?thesis
          by (subst step) (simp add: non_null_Cons k v)
      qed
    qed
  qed
qed

lemma pairs_size_non_null:
  "pairs_size ps = (\<Sum>kv\<leftarrow>non_null ps. length (fst kv) + length (snd kv) + 4)"
proof (induction ps)
  case Nil
  show ?case by (simp add: non_null_def)
next
  case (Cons p ps)
  then show ?case by (simp add: non_null_Cons split: option.splits)
qed

lemma length_message_lt:
  "length (message_text user_message) < required_size user_message pairs num_pairs"
  by (simp add: message_text_def required_size_def split: option.splits)

lemma format_logfmt_eq:
  assumes "nat num_pairs \<le> length pairs"
    and "malloc (required_size user_message pairs num_pairs)"
  shows "format_logfmt malloc user_message pairs num_pairs =
     (if length (foldl add_token (message_text user_message) (non_null (take (nat num_pairs) pairs)))
           < required_size user_message pairs num_pairs
      then Some (Some (foldl add_token (message_text user_message)
                         (non_null (take (nat num_pairs) pairs))))
      else None)"
proof -
  let ?req = "required_size user_message pairs num_pairs"
  have init: "(case user_message of
                   None \<Rightarrow> Some []
                 | Some m \<Rightarrow> if length m > 0 then strcat ?req [] m else Some []) =
              Some (message_text user_message)"
    using length_message_lt [of user_message pairs num_pairs]
    by (auto simp: message_text_def strcat_def split: option.splits)
  show ?thesis
    using assms
    by (simp add: format_logfmt_def Let_def init pairs_loop_eq [OF length_message_lt])
qed

lemma add_token_after_space:
  "acc \<noteq> [] \<Longrightarrow> last acc = CHR '' '' \<Longrightarrow> add_token acc (k, v) = acc @ token k v"
  by (simp add: add_token_def)

subsection \<open>The line, its length and the allocation\<close>

lemma join_sp_Cons: "ts \<noteq> [] \<Longrightarrow> join_sp (t # ts) = t @ CHR '' '' # join_sp ts"
  by (cases ts) simp_all

lemma add_token_last: "add_token acc kv \<noteq> [] \<and> last (add_token acc kv) \<noteq> CHR '' ''"
  by (simp add: add_token_def token_def)

lemma foldl_add_token_join:
  "foldl add_token acc kvs =
     acc @ (if kvs = [] then []
            else (if acc \<noteq> [] \<and> last acc \<noteq> CHR '' '' then '' '' else []) @
                 join_sp (map (\<lambda>kv. token (fst kv) (snd kv)) kvs))"
proof (induction kvs arbitrary: acc)
  case Nil
  show ?case by simp
next
  case (Cons kv kvs)
  show ?case
  proof (cases "kvs = []")
    case True
    then show ?thesis by (simp add: add_token_def)
  next
    case False
    have "foldl add_token acc (kv # kvs) = foldl add_token (add_token acc kv) kvs"
      by simp
    also have "\<dots> = add_token acc kv @ '' '' @ join_sp (map (\<lambda>kv. token (fst kv) (snd kv)) kvs)"
      using Cons.IH [of "add_token acc kv"] False add_token_last [of acc kv] by simp
    also have "\<dots> = acc @ (if kv # kvs = [] then []
            else (if acc \<noteq> [] \<and> last acc \<noteq> CHR '' '' then '' '' else []) @
                 join_sp (map (\<lambda>kv. token (fst kv) (snd kv)) (kv # kvs)))"
      using False by (simp add: add_token_def join_sp_Cons)
    finally show ?thesis .
  qed
qed

lemma length_token: "length (token k v) = length k + length v + escapes v + 3"
  by (simp add: token_def length_escaped)

lemma non_null_pairs_of: "non_null (pairs_of kvs) = kvs"
  by (induction kvs) (simp_all add: non_null_def pairs_of_def)

lemma length_pairs_of: "length (pairs_of kvs) = length kvs"
  by (simp add: pairs_of_def)

text \<open>
  The line is one byte shorter than the message, the separator after it, and for every
  pair the key, the value, the four bytes the capacity counts, and one more byte for every
  byte of the value that is escaped. So it fits the allocation exactly when at most one
  byte is escaped, or at most two after a message that ends in a space.
\<close>

lemma length_join_sp:
  "ts \<noteq> [] \<Longrightarrow> length (join_sp ts) + 1 = (\<Sum>t\<leftarrow>ts. length t + 1)"
  by (induction ts rule: join_sp.induct) simp_all

lemma length_line:
  assumes "kvs \<noteq> []"
  shows "length (foldl add_token acc kvs) + 1 =
           length acc + (if acc \<noteq> [] \<and> last acc \<noteq> CHR '' '' then 1 else 0) +
           (\<Sum>kv\<leftarrow>kvs. length (fst kv) + length (snd kv) + 4) +
           (\<Sum>kv\<leftarrow>kvs. escapes (snd kv))"
proof -
  let ?ts = "map (\<lambda>kv. token (fst kv) (snd kv)) kvs"
  have ne: "?ts \<noteq> []" using assms by simp
  have "(\<Sum>t\<leftarrow>?ts. length t + 1) =
          (\<Sum>kv\<leftarrow>kvs. (length (fst kv) + length (snd kv) + 4) + escapes (snd kv))"
    by (simp add: comp_def length_token add_ac)
  also have "\<dots> = (\<Sum>kv\<leftarrow>kvs. length (fst kv) + length (snd kv) + 4) +
                    (\<Sum>kv\<leftarrow>kvs. escapes (snd kv))"
    by (rule sum_list_addf)
  finally have "length (join_sp ?ts) + 1 =
      (\<Sum>kv\<leftarrow>kvs. length (fst kv) + length (snd kv) + 4) + (\<Sum>kv\<leftarrow>kvs. escapes (snd kv))"
    using length_join_sp [OF ne] by simp
  then show ?thesis
    using assms by (simp add: foldl_add_token_join)
qed

lemma line_fits_iff:
  assumes "kvs \<noteq> []"
  shows "length (foldl add_token msg kvs) <
           length msg + (\<Sum>kv\<leftarrow>kvs. length (fst kv) + length (snd kv) + 4) + 1 +
           (if msg \<noteq> [] then 1 else 0) \<longleftrightarrow>
         (\<Sum>kv\<leftarrow>kvs. escapes (snd kv)) \<le>
           1 + (if msg \<noteq> [] \<and> last msg = CHR '' '' then 1 else 0)"
  using length_line [OF assms, of msg] by (auto split: if_splits)

lemma required_size_eq:
  "required_size user_message pairs (int (length pairs)) =
     length (message_text user_message) +
     (\<Sum>kv\<leftarrow>non_null pairs. length (fst kv) + length (snd kv) + 4) + 1 +
     (if pairs \<noteq> [] \<and> message_text user_message \<noteq> [] then 1 else 0)"
  by (simp add: required_size_def message_text_def pairs_size_non_null split: option.splits)

lemma format_logfmt_null:
  assumes "nat num_pairs \<le> length pairs"
    and "\<not> malloc (required_size user_message pairs num_pairs)"
  shows "format_logfmt malloc user_message pairs num_pairs = Some None"
  using assms by (simp add: format_logfmt_def Let_def)

lemma non_null_nonempty: "non_null pairs \<noteq> [] \<Longrightarrow> pairs \<noteq> []"
  by (auto simp: non_null_def)

lemma format_logfmt_whole:
  "format_logfmt malloc user_message pairs (int (length pairs)) =
     (if \<not> malloc (required_size user_message pairs (int (length pairs))) then Some None
      else if non_null pairs = [] \<or>
              (\<Sum>kv\<leftarrow>non_null pairs. escapes (snd kv)) \<le>
                1 + (if message_text user_message \<noteq> [] \<and>
                        last (message_text user_message) = CHR '' '' then 1 else 0)
      then Some (Some (foldl add_token (message_text user_message) (non_null pairs)))
      else None)"
proof (cases "malloc (required_size user_message pairs (int (length pairs)))")
  case False
  then show ?thesis
    using format_logfmt_null [of "int (length pairs)" pairs malloc user_message] by simp
next
  case True
  let ?msg = "message_text user_message"
  have eq: "format_logfmt malloc user_message pairs (int (length pairs)) =
     (if length (foldl add_token ?msg (non_null pairs))
           < required_size user_message pairs (int (length pairs))
      then Some (Some (foldl add_token ?msg (non_null pairs)))
      else None)"
    using format_logfmt_eq [of "int (length pairs)" pairs malloc user_message] True by simp
  show ?thesis
  proof (cases "non_null pairs = []")
    case e: True
    then show ?thesis using True by (simp add: eq required_size_eq)
  next
    case ne: False
    have "required_size user_message pairs (int (length pairs)) =
        length ?msg + (\<Sum>kv\<leftarrow>non_null pairs. length (fst kv) + length (snd kv) + 4) + 1 +
        (if ?msg \<noteq> [] then 1 else 0)"
      using non_null_nonempty [OF ne] by (simp add: required_size_eq)
    then show ?thesis
      using True ne line_fits_iff [OF ne, of ?msg] by (simp add: eq)
  qed
qed

subsection \<open>The formatted line\<close>




text \<open>
  The bound on the escaped bytes leaves out exactly the inputs on which the formatter
  writes past its allocation.
\<close>

lemma format_logfmt_past_allocation:
  assumes "kvs \<noteq> []"
    and "malloc (required_size user_message (pairs_of kvs) (int (length kvs)))"
    and "\<not> (\<Sum>kv\<leftarrow>kvs. escapes (snd kv)) \<le>
           1 + (if message_text user_message \<noteq> [] \<and>
                   last (message_text user_message) = CHR '' '' then 1 else 0)"
  shows "format_logfmt malloc user_message (pairs_of kvs) (int (length kvs)) = None"
  using format_logfmt_whole [of malloc user_message "pairs_of kvs"] assms
  by (simp add: non_null_pairs_of length_pairs_of)

subsection \<open>Separator and skipped pairs\<close>

text \<open>
  Claim C10 as stated fails for the computed capacity: the byte for the space after a
  message that is not empty is added whenever \<open>num_pairs > 0\<close>, so a single pair with a
  null key raises the capacity from 2 to 3, and with an allocator that grants at most 2
  bytes the call without pairs returns the message while the call with the skipped pair
  returns the null pointer. A value with two bytes to escape makes the formatter write
  past its allocation, so no line is produced. And the message is copied as it is, so after
  a message that ends in two spaces there are two spaces before the first pair.
\<close>

theorem null_pair_counterexample:
  "required_size (Some ''a'') [\<lparr>key = None, value = Some ''v''\<rparr>] 1 = 3 \<and>
   required_size (Some ''a'') [] 0 = 2 \<and>
   format_logfmt (\<lambda>n. n \<le> 2) (Some ''a'') [\<lparr>key = None, value = Some ''v''\<rparr>] 1 = Some None \<and>
   format_logfmt (\<lambda>n. n \<le> 2) (Some ''a'') [] 0 = Some (Some ''a'') \<and>
   format_logfmt (\<lambda>n. True) (Some ''m'')
     [\<lparr>key = Some ''q'', value = Some [CHR 0x5C, CHR 0x22]\<rparr>] 1 = None \<and>
   format_logfmt (\<lambda>n. True) (Some ''a  '') [\<lparr>key = Some ''k'', value = Some ''v''\<rparr>] 1 =
     Some (Some (''a  k='' @ [CHR 0x22] @ ''v'' @ [CHR 0x22]))"
  by code_simp

text \<open>
  Claim C10, amended. For a pair array whose values, in the pairs that have both a key and
  a value, together have at most one byte to escape (at most two after a message that ends
  in a space): the formatter returns the null pointer when the allocation fails, and
  otherwise the message followed, for every pair that has both a key and a value and in
  order, by a space only if the text so far is not empty and does not end in a space, and
  then the token. So a message that ends in a space is followed directly by the first
  token (\<open>add_token_after_space\<close>). A pair with a null key or a
  null value adds nothing to the text and nothing to the sum over the pairs in the
  computed capacity, which is the length of the message, plus the key length, the value
  length and 4 for every pair that has both, plus 1, plus 1 more when the array is not
  empty and the message is not empty, skipped pairs included.
\<close>

theorem separator_and_null_pairs:
  assumes "non_null pairs = [] \<or>
           (\<Sum>kv\<leftarrow>non_null pairs. escapes (snd kv)) \<le>
             1 + (if message_text user_message \<noteq> [] \<and>
                     last (message_text user_message) = CHR '' '' then 1 else 0)"
  shows "format_logfmt malloc user_message pairs (int (length pairs)) =
           (if malloc (required_size user_message pairs (int (length pairs)))
            then Some (Some (foldl
                   (\<lambda>acc kv. acc @ (if acc \<noteq> [] \<and> last acc \<noteq> CHR '' '' then '' '' else []) @
                              token (fst kv) (snd kv))
                   (message_text user_message) (non_null pairs)))
            else Some None) \<and>
         required_size user_message pairs (int (length pairs)) =
           length (message_text user_message) +
           (\<Sum>kv\<leftarrow>non_null pairs. length (fst kv) + length (snd kv) + 4) + 1 +
           (if pairs \<noteq> [] \<and> message_text user_message \<noteq> [] then 1 else 0)"
proof -
  have "add_token = (\<lambda>acc kv. acc @ (if acc \<noteq> [] \<and> last acc \<noteq> CHR '' '' then '' '' else []) @
                              token (fst kv) (snd kv))"
    by (simp add: fun_eq_iff add_token_def)
  then show ?thesis
    using format_logfmt_whole [of malloc user_message pairs] assms
    by (simp add: required_size_eq)
qed

theorem separator_and_null_pairs_witness:
  "format_logfmt (\<lambda>n. True) (Some ''a '')
     [\<lparr>key = None, value = Some ''lost''\<rparr>, \<lparr>key = Some ''k'', value = Some ''v''\<rparr>,
      \<lparr>key = Some ''gone'', value = None\<rparr>] 3 =
     Some (Some (''a k='' @ [CHR 0x22] @ ''v'' @ [CHR 0x22])) \<and>
   required_size (Some ''a '')
     [\<lparr>key = None, value = Some ''lost''\<rparr>, \<lparr>key = Some ''k'', value = Some ''v''\<rparr>,
      \<lparr>key = Some ''gone'', value = None\<rparr>] 3 = 10"
proof -
  let ?ps = "[\<lparr>key = None, value = Some ''lost''\<rparr>, \<lparr>key = Some ''k'', value = Some ''v''\<rparr>,
      \<lparr>key = Some ''gone'', value = None\<rparr>]"
  have n: "non_null ?ps = [(''k'', ''v'')]" by (simp add: non_null_def)
  have l: "int (length ?ps) = 3" by simp
  show ?thesis
    using separator_and_null_pairs [of ?ps "Some ''a ''" "\<lambda>n. True"]
    unfolding n l
    by (simp add: escapes_def message_text_def token_def escaped_def esc_def)
qed

section \<open>The fallback extractor\<close>

text \<open>The \<open>%p\<close> text of the GNU C library always fits the value buffer.\<close>

lemma length_hex_nat: "0 < k \<Longrightarrow> n < 16 ^ k \<Longrightarrow> length (hex_nat n) \<le> k"
proof (induction k arbitrary: n)
  case 0
  then show ?case by simp
next
  case (Suc k)
  show ?case
  proof (cases "n < 16")
    case True
    then show ?thesis by (subst hex_nat.simps) simp
  next
    case False
    then have k: "0 < k" using Suc.prems(2) by (cases k) auto
    have "n div 16 < 16 ^ k" using Suc.prems(2) by (simp add: less_mult_imp_div_less mult.commute)
    then have "length (hex_nat (n div 16)) \<le> k" using Suc.IH [OF k] by simp
    then show ?thesis using False by (subst hex_nat.simps) simp
  qed
qed

lemma percent_p_short: "length (percent_p a) \<le> 101"
proof -
  have "unat a < 2 ^ 64" using unsigned_less [of a] by simp
  also have "(2::nat) ^ 64 = 16 ^ 16" by simp
  finally have "length (hex_nat (unat a)) \<le> 16" by (intro length_hex_nat) simp_all
  then show ?thesis by (simp add: percent_p_def)
qed

lemma percent_p_example: "percent_p 0x7ffd1c2a = ''0x7ffd1c2a''"
  by (simp add: percent_p_def hex_nat.simps hex_digit_def)

text \<open>
  Claim C8. For a non-null pointer and no allocation failure the result is one pair with
  the key \<open>unknown_error_type\<close> and the value \<open>unhandled_type_at_address_\<close> followed
  by the \<open>%p\<close> text of the pointer (which fits the 128-byte buffer whenever it has at
  most 101 bytes), and the count is set to 1; for the null pointer the result is the null
  pointer and the count is set to 0.
\<close>

theorem unknown_error_pair:
  assumes "length (pfmt error_details) \<le> 101"
  shows "(error_details \<noteq> 0 \<longrightarrow>
           parse_unknown_error pfmt True True True error_details num_pairs_out =
             (Some [\<lparr>key = Some ''unknown_error_type'',
                     value = Some (''unhandled_type_at_address_'' @ pfmt error_details)\<rparr>],
              map_option (\<lambda>_. 1) num_pairs_out)) \<and>
         parse_unknown_error pfmt calloc_ok strdup_key_ok strdup_value_ok 0 num_pairs_out =
           (None, map_option (\<lambda>_. 0) num_pairs_out)"
  using assms by (simp add: parse_unknown_error_def Let_def)

theorem unknown_error_pair_witness:
  "parse_unknown_error percent_p True True True 0x7ffd1c2a (Some 5) =
     (Some [\<lparr>key = Some ''unknown_error_type'',
             value = Some ''unhandled_type_at_address_0x7ffd1c2a''\<rparr>], Some 1) \<and>
   parse_unknown_error percent_p True True True 0 (Some 5) = (None, Some 0)"
proof -
  have l: "length (percent_p 0x7ffd1c2a) \<le> 101"
    unfolding percent_p_example by simp
  have n: "(0x7ffd1c2a :: 64 word) \<noteq> 0" by simp
  show ?thesis
    using unknown_error_pair [of percent_p "0x7ffd1c2a" "Some 5" True True True] l n
    unfolding percent_p_example by simp
qed

end
